theory Spec2Isabelle
  imports Main "HOL-Library.AList"
begin

section \<open>The workflow engine of \<^verbatim>\<open>src/workflows/workflow_engine.py\<close>\<close>

text \<open>
  The engine keeps a registry of workflows; a workflow is a Python \<^verbatim>\<open>dict\<close> of tasks
  (insertion ordered, keys unique); \<^verbatim>\<open>execute_workflow\<close> repeatedly scans the tasks and
  runs every task whose dependencies are in the set \<^verbatim>\<open>executed_tasks\<close>.

  Modelling decisions:
  \<^item> a \<^verbatim>\<open>dict\<close> whose iteration order matters is an association list; \<^verbatim>\<open>d[k] = v\<close> is
    \<open>AList.update\<close> (replace in place, or append at the end) and \<^verbatim>\<open>d.get(k)\<close> is \<open>map_of\<close>;
  \<^item> Python values (\<^verbatim>\<open>Any\<close>) are the datatype \<open>pyval\<close>, with \<open>PyNone\<close> for \<^verbatim>\<open>None\<close>;
  \<^item> a task action is a callable that receives the shared context, may mutate it, and
    either returns a value or raises an \<^verbatim>\<open>Exception\<close>: a function from the context to an
    outcome and the context afterwards. \<open>Raised m\<close> carries \<^verbatim>\<open>str(e)\<close>. Actions are
    total functions here: an action that never returns, one that raises outside
    \<^verbatim>\<open>Exception\<close> (which line 132 does not catch) and one that changes the workflow it
    belongs to are outside the model;
  \<^item> the two exceptions \<^verbatim>\<open>execute_workflow\<close> raises itself are values of \<open>exec_error\<close>;
  \<^item> the \<^verbatim>\<open>logger\<close> calls are a list of events, appended in program order;
  \<^item> the mutation of the \<^verbatim>\<open>Task\<close> objects is explicit: the run state carries the task
    dictionary, and \<^verbatim>\<open>execute_workflow\<close> returns the engine with the workflow as the run
    left it.
\<close>

subsection \<open>Data model\<close>

datatype TaskStatus = PENDING | RUNNING | COMPLETED | FAILED | SKIPPED

text \<open>The \<^verbatim>\<open>.value\<close> of each member of the enum.\<close>

fun status_value :: "TaskStatus \<Rightarrow> string" where
  "status_value PENDING = ''pending''"
| "status_value RUNNING = ''running''"
| "status_value COMPLETED = ''completed''"
| "status_value FAILED = ''failed''"
| "status_value SKIPPED = ''skipped''"

datatype pyval =
    PyNone
  | PyBool bool
  | PyInt int
  | PyStr string
  | PyDict "(string \<times> pyval) list"

type_synonym pycontext = "(string \<times> pyval) list"

datatype outcome = Returned pyval | Raised string

type_synonym task_action = "pycontext \<Rightarrow> outcome \<times> pycontext"

record Task =
  name :: string
  action :: task_action
  dependencies :: "string list"
  status :: TaskStatus
  result :: pyval
  error :: "string option"

record Workflow =
  wf_name :: string
  description :: string
  tasks :: "(string \<times> Task) list"

record WorkflowEngine =
  workflows :: "string \<rightharpoonup> Workflow"

datatype log_event =
    LogEngineInitialized
  | LogRegistered string
  | LogExecutingWorkflow string
  | LogExecutingTask string
  | LogTaskFailed string string
  | LogWorkflowCompleted string nat nat

text \<open>
  \<open>WorkflowNotFound\<close> is the \<^verbatim>\<open>ValueError\<close> of line 105, \<open>CannotExecute\<close> the
  \<^verbatim>\<open>RuntimeError\<close> of line 142 with its list \<^verbatim>\<open>remaining\<close>.
\<close>

datatype exec_error = WorkflowNotFound string | CannotExecute "string list"

record report_entry =
  r_status :: string
  r_result :: pyval
  r_error :: "string option"

type_synonym report = "(string \<times> report_entry) list"

subsection \<open>Workflow construction and registration\<close>

definition new_task :: "string \<Rightarrow> task_action \<Rightarrow> string list \<Rightarrow> Task" where
  "new_task n a deps =
     \<lparr>name = n, action = a, dependencies = deps, status = PENDING, result = PyNone, error = None\<rparr>"

definition new_workflow :: "string \<Rightarrow> string \<Rightarrow> Workflow" where
  "new_workflow n d = \<lparr>wf_name = n, description = d, tasks = []\<rparr>"

text \<open>\<^verbatim>\<open>dependencies or []\<close>: \<^verbatim>\<open>None\<close> and the empty list both give the empty list.\<close>

definition add_task :: "Workflow \<Rightarrow> string \<Rightarrow> task_action \<Rightarrow> string list option \<Rightarrow> Workflow" where
  "add_task w n a deps =
     w\<lparr>tasks := AList.update n (new_task n a (case deps of None \<Rightarrow> [] | Some ds \<Rightarrow> ds)) (tasks w)\<rparr>"

definition get_task :: "Workflow \<Rightarrow> string \<Rightarrow> Task option" where
  "get_task w n = map_of (tasks w) n"

definition new_engine :: WorkflowEngine where
  "new_engine = \<lparr>workflows = Map.empty\<rparr>"

definition register_workflow :: "WorkflowEngine \<Rightarrow> Workflow \<Rightarrow> WorkflowEngine" where
  "register_workflow eng w = eng\<lparr>workflows := (workflows eng)(wf_name w \<mapsto> w)\<rparr>"

subsection \<open>The scheduling loop\<close>

text \<open>
  The local state of \<^verbatim>\<open>execute_workflow\<close>: the task dictionary of the workflow (whose
  \<^verbatim>\<open>Task\<close> objects the loop mutates), the set \<^verbatim>\<open>executed_tasks\<close>, the shared context
  (\<open>st_ctx\<close>: the source's name is a reserved word here), the flag \<^verbatim>\<open>progress_made\<close> and the
  log written so far. \<^verbatim>\<open>len\<close> of the set is \<open>card\<close>; the set starts empty and only grows by
  single names, so it is always finite.
\<close>

record run_state =
  st_tasks :: "(string \<times> Task) list"
  executed_tasks :: "string set"
  st_ctx :: pycontext
  progress_made :: bool
  st_log :: "log_event list"

text \<open>Line 118: \<^verbatim>\<open>task.status in [COMPLETED, FAILED, SKIPPED]\<close>.\<close>

definition terminal :: "TaskStatus \<Rightarrow> bool" where
  "terminal st = (st \<in> set [COMPLETED, FAILED, SKIPPED])"

text \<open>Line 122: \<^verbatim>\<open>all(dep in executed_tasks for dep in task.dependencies)\<close>.\<close>

definition deps_met :: "Task \<Rightarrow> string set \<Rightarrow> bool" where
  "deps_met t ex = list_all (\<lambda>dep. dep \<in> ex) (dependencies t)"

definition set_task :: "string \<Rightarrow> Task \<Rightarrow> run_state \<Rightarrow> run_state" where
  "set_task n t s = s\<lparr>st_tasks := AList.update n t (st_tasks s)\<rparr>"

text \<open>Lines 124-125: the task is marked running and the start is logged.\<close>

definition begin_task :: "string \<Rightarrow> Task \<Rightarrow> run_state \<Rightarrow> run_state" where
  "begin_task n t s =
     (set_task n (t\<lparr>status := RUNNING\<rparr>) s)\<lparr>st_log := st_log s @ [LogExecutingTask n]\<rparr>"

text \<open>
  Lines 127-137: the action is called on the shared context. When it returns, the value is
  stored and the task is completed; when it raises, the task is failed with the message.
  Either way the name joins \<^verbatim>\<open>executed_tasks\<close> and progress is recorded. The argument \<open>t\<close>
  is the task object as \<open>begin_task\<close> left it.
\<close>

definition finish_task :: "string \<Rightarrow> Task \<Rightarrow> run_state \<Rightarrow> run_state" where
  "finish_task n t s =
     (case action t (st_ctx s) of
        (Returned v, c) \<Rightarrow>
          (set_task n (t\<lparr>result := v, status := COMPLETED\<rparr>) s)
            \<lparr>executed_tasks := insert n (executed_tasks s), st_ctx := c, progress_made := True\<rparr>
      | (Raised m, c) \<Rightarrow>
          (set_task n (t\<lparr>status := FAILED, error := Some m\<rparr>) s)
            \<lparr>executed_tasks := insert n (executed_tasks s), st_ctx := c, progress_made := True,
              st_log := st_log s @ [LogTaskFailed n m]\<rparr>)"

text \<open>The body of the \<^verbatim>\<open>for\<close> loop (lines 117-137) for the dictionary key \<open>n\<close>.\<close>

definition visit :: "string \<Rightarrow> run_state \<Rightarrow> run_state" where
  "visit n s =
     (case map_of (st_tasks s) n of
        None \<Rightarrow> s
      | Some t \<Rightarrow>
          if terminal (status t) then s
          else if deps_met t (executed_tasks s)
            then finish_task n (t\<lparr>status := RUNNING\<rparr>) (begin_task n t s)
          else s)"

text \<open>The \<^verbatim>\<open>for\<close> loop over \<^verbatim>\<open>workflow.tasks.items()\<close>, in insertion order.\<close>

definition scan_tasks :: "run_state \<Rightarrow> run_state" where
  "scan_tasks s = fold visit (map fst (st_tasks s)) s"

text \<open>Line 141: the names that are not in \<^verbatim>\<open>executed_tasks\<close>, in insertion order.\<close>

definition remaining :: "run_state \<Rightarrow> string list" where
  "remaining s = filter (\<lambda>n. n \<notin> executed_tasks s) (map fst (st_tasks s))"

text \<open>Lines 145-152: the report, one entry per task, in insertion order.\<close>

definition collect_results :: "(string \<times> Task) list \<Rightarrow> report" where
  "collect_results ts =
     map (\<lambda>(n, t). (n, \<lparr>r_status = status_value (status t), r_result = result t, r_error = error t\<rparr>)) ts"

text \<open>The number of tasks still to run: what the \<^verbatim>\<open>while\<close> loop decreases.\<close>

definition open_count :: "(string \<times> Task) list \<Rightarrow> nat" where
  "open_count ts = length (filter (\<lambda>p. \<not> terminal (status (snd p))) ts)"

lemma open_count_update:
  "map_of ts n = Some t \<Longrightarrow>
   open_count (AList.update n t' ts) + (if terminal (status t) then 0 else 1)
     = open_count ts + (if terminal (status t') then 0 else 1)"
  by (induction ts) (auto simp: open_count_def)

lemma visit_open_count:
  "open_count (st_tasks (visit n s)) \<le> open_count (st_tasks s) \<and>
   (progress_made (visit n s) \<longrightarrow>
      progress_made s \<or> open_count (st_tasks (visit n s)) < open_count (st_tasks s))"
proof (cases "map_of (st_tasks s) n")
  case None
  then show ?thesis by (simp add: visit_def)
next
  case (Some t)
  show ?thesis
  proof (cases "\<not> terminal (status t) \<and> deps_met t (executed_tasks s)")
    case False
    with Some show ?thesis by (auto simp: visit_def)
  next
    case True
    have "open_count (AList.update n t' (st_tasks s)) < open_count (st_tasks s)"
      if "terminal (status t')" for t'
      using open_count_update[OF Some, of t'] True that by simp
    with Some True show ?thesis
      by (auto simp: visit_def finish_task_def begin_task_def set_task_def terminal_def
          less_imp_le split: prod.splits outcome.splits)
  qed
qed

lemma fold_visit_open_count:
  "open_count (st_tasks (fold visit ns s)) \<le> open_count (st_tasks s) \<and>
   (progress_made (fold visit ns s) \<longrightarrow>
      progress_made s \<or> open_count (st_tasks (fold visit ns s)) < open_count (st_tasks s))"
proof (induction ns arbitrary: s)
  case Nil
  then show ?case by simp
next
  case (Cons n ns)
  from Cons.IH[of "visit n s"] visit_open_count[of n s]
  show ?case by auto
qed

text \<open>
  The \<^verbatim>\<open>while\<close> loop of lines 114-142 and the aggregation of lines 145-152. The result is
  the error raised or the report returned, with the state the loop ended in.
\<close>

function run_loop :: "run_state \<Rightarrow> (exec_error + report) \<times> run_state" where
  "run_loop s =
     (if card (executed_tasks s) < length (st_tasks s) then
        (let s' = scan_tasks (s\<lparr>progress_made := False\<rparr>) in
           if \<not> progress_made s' then (Inl (CannotExecute (remaining s')), s')
           else run_loop s')
      else (Inr (collect_results (st_tasks s)), s))"
  by pat_completeness auto
termination run_loop
proof (relation "measure (\<lambda>s. open_count (st_tasks s))")
  show "wf (measure (\<lambda>s. open_count (st_tasks s)))" by simp
next
  fix s s' :: run_state
  assume "s' = scan_tasks (s\<lparr>progress_made := False\<rparr>)" and "\<not> \<not> progress_made s'"
  then show "(s', s) \<in> measure (\<lambda>s. open_count (st_tasks s))"
    using fold_visit_open_count[of "map fst (st_tasks s)" "s\<lparr>progress_made := False\<rparr>"]
    by (simp add: scan_tasks_def)
qed

declare run_loop.simps [simp del]

text \<open>Line 154: how many tasks are completed.\<close>

definition success_count :: "(string \<times> Task) list \<Rightarrow> nat" where
  "success_count ts = length (filter (\<lambda>p. status (snd p) = COMPLETED) ts)"

definition init_state :: "(string \<times> Task) list \<Rightarrow> pycontext option \<Rightarrow> string \<Rightarrow> run_state" where
  "init_state ts c wn =
     \<lparr>st_tasks = ts, executed_tasks = {},
      st_ctx = (case c of None \<Rightarrow> [] | Some d \<Rightarrow> d),
      progress_made = False, st_log = [LogExecutingWorkflow wn]\<rparr>"

text \<open>
  \<^verbatim>\<open>execute_workflow\<close>: the outcome of the call, the engine afterwards (the registered
  workflow holds the mutated tasks) and the log of the call.
\<close>

definition execute_workflow ::
  "WorkflowEngine \<Rightarrow> string \<Rightarrow> pycontext option
     \<Rightarrow> (exec_error + report) \<times> WorkflowEngine \<times> log_event list" where
  "execute_workflow eng wn c =
     (case workflows eng wn of
        None \<Rightarrow> (Inl (WorkflowNotFound wn), eng, [])
      | Some w \<Rightarrow>
          (case run_loop (init_state (tasks w) c wn) of
             (r, s) \<Rightarrow>
               (r,
                eng\<lparr>workflows := (workflows eng)(wn \<mapsto> w\<lparr>tasks := st_tasks s\<rparr>)\<rparr>,
                st_log s @
                  (case r of
                     Inl e \<Rightarrow> []
                   | Inr rep \<Rightarrow>
                       [LogWorkflowCompleted wn (success_count (st_tasks s)) (length (st_tasks s))]))))"

subsection \<open>Example workflows\<close>

text \<open>
  The order workflow of the specification's example: \<^verbatim>\<open>validate\<close>, then \<^verbatim>\<open>payment\<close>, then
  \<^verbatim>\<open>fulfill\<close>, built with \<^verbatim>\<open>add_task\<close> as a caller would.
\<close>

definition order_wf :: Workflow where
  "order_wf =
     add_task
       (add_task
          (add_task (new_workflow ''order'' '''') ''validate''
             (\<lambda>c. (Returned (PyDict [(''valid'', PyBool True)]), c)) None)
          ''payment''
          (\<lambda>c. (Returned (PyDict [(''payment_id'', PyStr ''pay_123'')]), c)) (Some [''validate'']))
       ''fulfill'' (\<lambda>c. (Returned (PyDict [(''shipped'', PyBool True)]), c)) (Some [''payment''])"

text \<open>A workflow with a single task and no dependencies.\<close>

definition once_wf :: Workflow where
  "once_wf = add_task (new_workflow ''once'' '''') ''t'' (\<lambda>c. (Returned (PyInt 1), c)) None"

lemmas exec_defs =
  execute_workflow_def register_workflow_def new_engine_def add_task_def new_workflow_def
  new_task_def init_state_def scan_tasks_def visit_def terminal_def deps_met_def begin_task_def
  finish_task_def set_task_def remaining_def collect_results_def success_count_def

section \<open>Concrete runs\<close>

text \<open>
  Claim C2. For the workflow \<^verbatim>\<open>validate\<close> (no dependencies), \<^verbatim>\<open>payment\<close> (after
  \<^verbatim>\<open>validate\<close>), \<^verbatim>\<open>fulfill\<close> (after \<^verbatim>\<open>payment\<close>), \<^verbatim>\<open>execute_workflow\<close> calls the actions in the
  order validate, payment, fulfill (the log shows one start event per call, in that order)
  and returns a report with the three tasks completed, with the values the actions
  returned and no error. This holds for every context passed in.
\<close>

theorem order_example_report:
  "fst (execute_workflow (register_workflow new_engine order_wf) ''order'' c) =
     Inr [(''validate'',
           \<lparr>r_status = ''completed'', r_result = PyDict [(''valid'', PyBool True)],
            r_error = None\<rparr>),
          (''payment'',
           \<lparr>r_status = ''completed'', r_result = PyDict [(''payment_id'', PyStr ''pay_123'')],
            r_error = None\<rparr>),
          (''fulfill'',
           \<lparr>r_status = ''completed'', r_result = PyDict [(''shipped'', PyBool True)],
            r_error = None\<rparr>)]
   \<and> snd (snd (execute_workflow (register_workflow new_engine order_wf) ''order'' c)) =
     [LogExecutingWorkflow ''order'', LogExecutingTask ''validate'', LogExecutingTask ''payment'',
      LogExecutingTask ''fulfill'', LogWorkflowCompleted ''order'' 3 3]"
  by (simp add: exec_defs order_wf_def run_loop.simps)

text \<open>
  Claim C9. A registered workflow with no task returns the empty report at once: the loop
  condition \<open>0 < 0\<close> is false, no action is called (the log has no task event), no error is
  raised and the engine is unchanged.
\<close>

theorem empty_workflow_report:
  assumes "workflows eng wn = Some w" and "tasks w = []"
  shows "execute_workflow eng wn c =
           (Inr [], eng, [LogExecutingWorkflow wn, LogWorkflowCompleted wn 0 0])"
proof -
  have "w\<lparr>tasks := []\<rparr> = w" using assms(2) by simp
  moreover have "(workflows eng)(wn \<mapsto> w) = workflows eng"
    using assms(1) by (simp add: fun_upd_idem)
  ultimately have same: "eng\<lparr>workflows := (workflows eng)(wn \<mapsto> w\<lparr>tasks := []\<rparr>)\<rparr> = eng"
    by simp
  have "run_loop (init_state [] c wn) = (Inr [], init_state [] c wn)"
    by (simp add: init_state_def run_loop.simps collect_results_def)
  then show ?thesis
    using assms same
    by (simp add: execute_workflow_def success_count_def) (simp add: init_state_def)
qed

theorem empty_workflow_report_witness:
  "execute_workflow (register_workflow new_engine (new_workflow ''empty'' '''')) ''empty'' None =
     (Inr [], register_workflow new_engine (new_workflow ''empty'' ''''),
      [LogExecutingWorkflow ''empty'', LogWorkflowCompleted ''empty'' 0 0])"
  using empty_workflow_report[of "register_workflow new_engine (new_workflow ''empty'' '''')"
      "''empty''" "new_workflow ''empty'' ''''" None]
  by (simp add: register_workflow_def new_engine_def new_workflow_def)

lemma run_loop_not_not_found: "fst (run_loop s) \<noteq> Inl (WorkflowNotFound m)"
proof (induction s rule: run_loop.induct)
  case (1 s)
  then show ?case
    by (subst run_loop.simps) (simp add: Let_def)
qed

text \<open>
  Claim C5. When the name is not a key of the registry, the call fails with the not-found
  error, the engine is unchanged and the log is empty (no task ran, no report). When the
  name is registered the call never fails with a not-found error, whatever the context:
  the check of the name is the only validation of the arguments.
\<close>

theorem not_found_only_validation:
  "(workflows eng wn = None \<longrightarrow>
      execute_workflow eng wn c = (Inl (WorkflowNotFound wn), eng, []))
   \<and> (workflows eng wn \<noteq> None \<longrightarrow>
      (\<forall>m. fst (execute_workflow eng wn c) \<noteq> Inl (WorkflowNotFound m)))"
proof (intro conjI impI allI)
  assume "workflows eng wn = None"
  then show "execute_workflow eng wn c = (Inl (WorkflowNotFound wn), eng, [])"
    by (simp add: execute_workflow_def)
next
  fix m
  assume "workflows eng wn \<noteq> None"
  then obtain w where w: "workflows eng wn = Some w" by auto
  show "fst (execute_workflow eng wn c) \<noteq> Inl (WorkflowNotFound m)"
    using run_loop_not_not_found[of "init_state (tasks w) c wn" m] w
    by (cases "run_loop (init_state (tasks w) c wn)") (simp add: execute_workflow_def)
qed

theorem not_found_only_validation_witness:
  "execute_workflow (register_workflow new_engine order_wf) ''nonexistent'' None =
     (Inl (WorkflowNotFound ''nonexistent''), register_workflow new_engine order_wf, [])
   \<and> (\<forall>m. fst (execute_workflow (register_workflow new_engine order_wf) ''order'' None)
          \<noteq> Inl (WorkflowNotFound m))"
  using not_found_only_validation[of "register_workflow new_engine order_wf" "''nonexistent''" None]
    not_found_only_validation[of "register_workflow new_engine order_wf" "''order''" None]
  by (simp add: register_workflow_def new_engine_def order_wf_def add_task_def new_workflow_def)

text \<open>
  Claim C7. A task that is already terminal when the call starts is skipped by the scan
  (line 119), but it is never added to \<^verbatim>\<open>executed_tasks\<close>, so the loop condition of line 114
  stays true and a scan without progress raises the error of line 142. Executing the
  one-task workflow a second time shows it: the first call returns the report, the second
  call (every task now completed) raises, listing the task as remaining, and calls no
  action.
\<close>

theorem rerun_raises_cannot_execute:
  "fst (execute_workflow (register_workflow new_engine once_wf) ''once'' None) =
     Inr [(''t'', \<lparr>r_status = ''completed'', r_result = PyInt 1, r_error = None\<rparr>)]
   \<and> execute_workflow
        (fst (snd (execute_workflow (register_workflow new_engine once_wf) ''once'' None)))
        ''once'' None =
       (Inl (CannotExecute [''t'']),
        fst (snd (execute_workflow (register_workflow new_engine once_wf) ''once'' None)),
        [LogExecutingWorkflow ''once''])"
  by (simp add: exec_defs once_wf_def run_loop.simps)

section \<open>Reasoning about the scheduling loop\<close>

subsection \<open>One visit, one scan, the whole loop\<close>

text \<open>
  A task can run in a state when it is a key of the dictionary, is not terminal, and all
  its dependencies are in \<^verbatim>\<open>executed_tasks\<close>: the two tests of lines 118 and 122.
\<close>

definition runnable :: "run_state \<Rightarrow> string \<Rightarrow> bool" where
  "runnable s n =
     (case map_of (st_tasks s) n of
        None \<Rightarrow> False
      | Some t \<Rightarrow> \<not> terminal (status t) \<and> deps_met t (executed_tasks s))"

lemma visit_not_runnable: "\<not> runnable s n \<Longrightarrow> visit n s = s"
  by (auto simp: runnable_def visit_def split: option.splits)

lemma visit_runnable:
  assumes "map_of (st_tasks s) n = Some t" and "\<not> terminal (status t)"
    and "deps_met t (executed_tasks s)"
  shows "(\<exists>v c. action t (st_ctx s) = (Returned v, c) \<and>
            visit n s = s\<lparr>st_tasks := AList.update n (t\<lparr>result := v, status := COMPLETED\<rparr>) (st_tasks s),
                          executed_tasks := insert n (executed_tasks s), st_ctx := c,
                          progress_made := True,
                          st_log := st_log s @ [LogExecutingTask n]\<rparr>)
       \<or> (\<exists>m c. action t (st_ctx s) = (Raised m, c) \<and>
            visit n s = s\<lparr>st_tasks := AList.update n (t\<lparr>status := FAILED, error := Some m\<rparr>) (st_tasks s),
                          executed_tasks := insert n (executed_tasks s), st_ctx := c,
                          progress_made := True,
                          st_log := st_log s @ [LogExecutingTask n, LogTaskFailed n m]\<rparr>)"
proof (cases "action t (st_ctx s)")
  case (Pair r c)
  show ?thesis
  proof (cases r)
    case (Returned v)
    with Pair assms show ?thesis
      by (simp add: visit_def begin_task_def finish_task_def set_task_def)
  next
    case (Raised m)
    with Pair assms show ?thesis
      by (simp add: visit_def begin_task_def finish_task_def set_task_def)
  qed
qed

lemma visit_progress_mono: "progress_made s \<Longrightarrow> progress_made (visit n s)"
  by (auto simp: visit_def begin_task_def finish_task_def set_task_def
      split: option.splits prod.splits outcome.splits)

lemma visit_runnable_progress: "runnable s n \<Longrightarrow> progress_made (visit n s)"
  by (auto simp: runnable_def visit_def begin_task_def finish_task_def set_task_def
      split: option.splits prod.splits outcome.splits)

lemma fold_visit_progress_mono: "progress_made s \<Longrightarrow> progress_made (fold visit ns s)"
  by (induction ns arbitrary: s) (auto simp: visit_progress_mono)

lemma fold_visit_no_progress:
  "\<not> progress_made (fold visit ns s) \<Longrightarrow>
     fold visit ns s = s \<and> (\<forall>n\<in>set ns. \<not> runnable s n)"
proof (induction ns arbitrary: s)
  case Nil
  then show ?case by simp
next
  case (Cons n ns)
  have np: "\<not> progress_made (visit n s)"
    using Cons.prems fold_visit_progress_mono[of "visit n s" ns] by auto
  then have nr: "\<not> runnable s n" using visit_runnable_progress by blast
  then have "visit n s = s" by (rule visit_not_runnable)
  with Cons nr show ?case by simp
qed

lemma not_key_not_runnable: "n \<notin> fst ` set (st_tasks s) \<Longrightarrow> \<not> runnable s n"
  by (simp add: runnable_def map_of_eq_None_iff[THEN iffD2])

lemma scan_no_progress:
  assumes "\<not> progress_made (scan_tasks s)"
  shows "scan_tasks s = s" and "\<not> runnable s n"
proof -
  from fold_visit_no_progress[of "map fst (st_tasks s)" s] assms
  have a: "scan_tasks s = s" and b: "\<forall>k\<in>set (map fst (st_tasks s)). \<not> runnable s k"
    by (simp_all add: scan_tasks_def)
  show "scan_tasks s = s" by (rule a)
  show "\<not> runnable s n"
  proof (cases "n \<in> fst ` set (st_tasks s)")
    case True
    with b show ?thesis by auto
  next
    case False
    then show ?thesis by (rule not_key_not_runnable)
  qed
qed

lemma fold_visit_invariant:
  assumes "P s" and "\<And>s n. P s \<Longrightarrow> P (visit n s)"
  shows "P (fold visit ns s)"
  using assms(1) by (induction ns arbitrary: s) (auto intro: assms(2))

lemma run_loop_invariant:
  assumes "P s" and vis: "\<And>s n. P s \<Longrightarrow> P (visit n s)"
    and flag: "\<And>s. P s \<Longrightarrow> P (s\<lparr>progress_made := False\<rparr>)"
  shows "P (snd (run_loop s))"
  using assms(1)
proof (induction s rule: run_loop.induct)
  case (1 s)
  show ?case
  proof (cases "card (executed_tasks s) < length (st_tasks s)")
    case False
    with "1.prems" show ?thesis by (subst run_loop.simps) simp
  next
    case True
    let ?s' = "scan_tasks (s\<lparr>progress_made := False\<rparr>)"
    have P': "P ?s'"
      unfolding scan_tasks_def by (rule fold_visit_invariant[OF flag[OF "1.prems"] vis])
    show ?thesis
    proof (cases "progress_made ?s'")
      case False
      with True P' show ?thesis by (subst run_loop.simps) (simp add: Let_def)
    next
      case prog: True
      from "1.IH"[OF True refl _ P'] prog have "P (snd (run_loop ?s'))" by simp
      with True prog show ?thesis by (subst run_loop.simps) (simp add: Let_def)
    qed
  qed
qed

lemma run_loop_final:
  obtains (returned) "fst (run_loop s) = Inr (collect_results (st_tasks (snd (run_loop s))))"
      and "length (st_tasks (snd (run_loop s))) \<le> card (executed_tasks (snd (run_loop s)))"
  | (stuck) "fst (run_loop s) = Inl (CannotExecute (remaining (snd (run_loop s))))"
      and "card (executed_tasks (snd (run_loop s))) < length (st_tasks (snd (run_loop s)))"
      and "\<forall>n. \<not> runnable (snd (run_loop s)) n"
proof -
  have "(fst (run_loop s) = Inr (collect_results (st_tasks (snd (run_loop s)))) \<and>
         length (st_tasks (snd (run_loop s))) \<le> card (executed_tasks (snd (run_loop s))))
      \<or> (fst (run_loop s) = Inl (CannotExecute (remaining (snd (run_loop s)))) \<and>
         card (executed_tasks (snd (run_loop s))) < length (st_tasks (snd (run_loop s))) \<and>
         (\<forall>n. \<not> runnable (snd (run_loop s)) n))"
  proof (induction s rule: run_loop.induct)
    case (1 s)
    show ?case
    proof (cases "card (executed_tasks s) < length (st_tasks s)")
      case False
      then show ?thesis by (subst (1 2 3 4 5 6 7) run_loop.simps) simp
    next
      case True
      let ?s0 = "s\<lparr>progress_made := False\<rparr>"
      let ?s' = "scan_tasks ?s0"
      show ?thesis
      proof (cases "progress_made ?s'")
        case False
        have same: "?s' = ?s0" and nr: "\<And>n. \<not> runnable ?s0 n"
          using scan_no_progress[OF False] by auto
        have rl: "run_loop s = (Inl (CannotExecute (remaining ?s')), ?s')"
          using True False by (subst run_loop.simps) (simp add: Let_def)
        show ?thesis
          unfolding rl using True nr by (simp add: same)
      next
        case prog: True
        have rl: "run_loop s = run_loop ?s'"
          using True prog by (subst run_loop.simps) (simp add: Let_def)
        from "1.IH"[OF True refl] prog show ?thesis unfolding rl by simp
      qed
    qed
  qed
  then show thesis using returned stuck by blast
qed

subsection \<open>What a run leaves behind\<close>

text \<open>
  The names a run can ever execute: a task whose dependencies can all be executed. A task
  on a dependency cycle, a task with a dependency that is no key of the dictionary, and
  every task that depends on one of them, is outside this set.
\<close>

inductive_set resolvable :: "(string \<times> Task) list \<Rightarrow> string set"
  for ts :: "(string \<times> Task) list" where
  resolve: "map_of ts n = Some t \<Longrightarrow> \<forall>d\<in>set (dependencies t). d \<in> resolvable ts
              \<Longrightarrow> n \<in> resolvable ts"

text \<open>
  \<open>ran_as t0 t\<close>: the task object \<open>t\<close> is \<open>t0\<close> after the loop ran its action, completed
  with the value returned or failed with the message raised.
\<close>

definition ran_as :: "Task \<Rightarrow> Task \<Rightarrow> bool" where
  "ran_as t0 t \<longleftrightarrow>
     (\<exists>x v. fst (action t0 x) = Returned v \<and> t = t0\<lparr>result := v, status := COMPLETED\<rparr>)
   \<or> (\<exists>x m. fst (action t0 x) = Raised m \<and> t = t0\<lparr>status := FAILED, error := Some m\<rparr>)"

lemma ran_as_status: "ran_as t0 t \<Longrightarrow> status t = COMPLETED \<or> status t = FAILED"
  by (auto simp: ran_as_def)

lemma ran_as_terminal: "ran_as t0 t \<Longrightarrow> terminal (status t)"
  by (auto simp: ran_as_def terminal_def)

lemma visit_cases [case_names skip run]:
  obtains (skip) "visit n s = s"
  | (run) t t' where "map_of (st_tasks s) n = Some t" and "\<not> terminal (status t)"
      and "deps_met t (executed_tasks s)" and "ran_as t t'"
      and "st_tasks (visit n s) = AList.update n t' (st_tasks s)"
      and "executed_tasks (visit n s) = insert n (executed_tasks s)"
      and "progress_made (visit n s)"
      and "st_log (visit n s) =
             st_log s @ LogExecutingTask n #
               (if status t' = FAILED then [LogTaskFailed n (the (error t'))] else [])"
proof (cases "runnable s n")
  case False
  then show thesis using skip visit_not_runnable by blast
next
  case True
  then obtain t where t: "map_of (st_tasks s) n = Some t" "\<not> terminal (status t)"
      "deps_met t (executed_tasks s)"
    by (auto simp: runnable_def split: option.splits)
  from visit_runnable[OF t] show thesis
  proof (elim disjE exE conjE)
    fix v c
    assume a: "action t (st_ctx s) = (Returned v, c)"
      and v: "visit n s = s\<lparr>st_tasks := AList.update n (t\<lparr>result := v, status := COMPLETED\<rparr>) (st_tasks s),
                          executed_tasks := insert n (executed_tasks s), st_ctx := c,
                          progress_made := True,
                          st_log := st_log s @ [LogExecutingTask n]\<rparr>"
    have "ran_as t (t\<lparr>result := v, status := COMPLETED\<rparr>)"
      unfolding ran_as_def using a by (metis fst_conv)
    then show thesis
      using run[OF t, of "t\<lparr>result := v, status := COMPLETED\<rparr>"] v by simp
  next
    fix m c
    assume a: "action t (st_ctx s) = (Raised m, c)"
      and v: "visit n s = s\<lparr>st_tasks := AList.update n (t\<lparr>status := FAILED, error := Some m\<rparr>) (st_tasks s),
                          executed_tasks := insert n (executed_tasks s), st_ctx := c,
                          progress_made := True,
                          st_log := st_log s @ [LogExecutingTask n, LogTaskFailed n m]\<rparr>"
    have "ran_as t (t\<lparr>status := FAILED, error := Some m\<rparr>)"
      unfolding ran_as_def using a by (metis fst_conv)
    then show thesis
      using run[OF t, of "t\<lparr>status := FAILED, error := Some m\<rparr>"] v by simp
  qed
qed

text \<open>
  The invariant of the loop, relative to the task dictionary \<open>ts0\<close> the call started
  with: the keys and their order never change; a task that is not in \<^verbatim>\<open>executed_tasks\<close>
  is untouched; a task in \<^verbatim>\<open>executed_tasks\<close> was not terminal at the start and now is
  what running its action made of it; the log has a start event exactly for the executed
  tasks and a failure event only for failed tasks, with their message; the dependencies
  of an executed task are executed.
\<close>

definition run_inv :: "(string \<times> Task) list \<Rightarrow> run_state \<Rightarrow> bool" where
  "run_inv ts0 s \<longleftrightarrow>
     map fst (st_tasks s) = map fst ts0 \<and>
     (\<forall>n. n \<notin> executed_tasks s \<longrightarrow> map_of (st_tasks s) n = map_of ts0 n) \<and>
     (\<forall>n\<in>executed_tasks s. \<exists>t0 t. map_of ts0 n = Some t0 \<and> \<not> terminal (status t0) \<and>
          map_of (st_tasks s) n = Some t \<and> ran_as t0 t) \<and>
     executed_tasks s \<subseteq> resolvable ts0 \<and>
     (\<forall>n. LogExecutingTask n \<in> set (st_log s) \<longleftrightarrow> n \<in> executed_tasks s) \<and>
     (\<forall>n m. LogTaskFailed n m \<in> set (st_log s) \<longrightarrow>
          (\<exists>t. map_of (st_tasks s) n = Some t \<and> status t = FAILED \<and> error t = Some m)) \<and>
     (\<forall>n t0. n \<in> executed_tasks s \<and> map_of ts0 n = Some t0 \<longrightarrow>
          set (dependencies t0) \<subseteq> executed_tasks s)"

lemma run_inv_init: "run_inv ts0 (init_state ts0 c wn)"
  by (simp add: run_inv_def init_state_def)

lemma run_inv_flag: "run_inv ts0 s \<Longrightarrow> run_inv ts0 (s\<lparr>progress_made := b\<rparr>)"
  by (simp add: run_inv_def)

lemma run_inv_visit:
  assumes inv: "run_inv ts0 s"
  shows "run_inv ts0 (visit n s)"
proof (cases n s rule: visit_cases)
  case skip
  with inv show ?thesis by simp
next
  case (run t t')
  let ?E = "executed_tasks s"
  have keys: "map fst (st_tasks s) = map fst ts0"
    and untouched: "\<And>k. k \<notin> ?E \<Longrightarrow> map_of (st_tasks s) k = map_of ts0 k"
    and ran: "\<And>k. k \<in> ?E \<Longrightarrow> \<exists>t0 t. map_of ts0 k = Some t0 \<and> \<not> terminal (status t0) \<and>
          map_of (st_tasks s) k = Some t \<and> ran_as t0 t"
    and res: "?E \<subseteq> resolvable ts0"
    and log1: "\<And>k. LogExecutingTask k \<in> set (st_log s) \<longleftrightarrow> k \<in> ?E"
    and log2: "\<And>k m. LogTaskFailed k m \<in> set (st_log s) \<Longrightarrow>
          (\<exists>t. map_of (st_tasks s) k = Some t \<and> status t = FAILED \<and> error t = Some m)"
    and closed: "\<And>k t0. k \<in> ?E \<Longrightarrow> map_of ts0 k = Some t0 \<Longrightarrow> set (dependencies t0) \<subseteq> ?E"
    using inv unfolding run_inv_def by blast+
  have n_new: "n \<notin> ?E"
  proof
    assume "n \<in> ?E"
    from ran[OF this] run(1) have "terminal (status t)" by (auto dest: ran_as_terminal)
    with run(2) show False by simp
  qed
  then have t0: "map_of ts0 n = Some t" using untouched run(1) by simp
  have "\<forall>d\<in>set (dependencies t). d \<in> resolvable ts0"
    using run(3) res by (auto simp: deps_met_def list_all_iff)
  with t0 have n_res: "n \<in> resolvable ts0" by (rule resolvable.resolve)
  have n_key: "n \<in> fst ` set (st_tasks s)"
    using run(1) by (rule map_of_SomeD[THEN imageI, of _ _ _ fst, simplified])
  have mo: "map_of (st_tasks (visit n s)) = (map_of (st_tasks s))(n \<mapsto> t')"
    by (simp add: run(5) update_conv')
  have "n \<in> set (map fst (st_tasks s))" using n_key by simp
  then have c1: "map fst (st_tasks (visit n s)) = map fst ts0"
    using keys by (simp only: run(5) update_keys if_True)
  have c2: "\<forall>k. k \<notin> executed_tasks (visit n s) \<longrightarrow> map_of (st_tasks (visit n s)) k = map_of ts0 k"
    using untouched by (simp add: mo run(6))
  have c3: "\<forall>k\<in>executed_tasks (visit n s). \<exists>t0 u. map_of ts0 k = Some t0 \<and> \<not> terminal (status t0) \<and>
          map_of (st_tasks (visit n s)) k = Some u \<and> ran_as t0 u"
  proof
    fix k assume k: "k \<in> executed_tasks (visit n s)"
    show "\<exists>t0 u. map_of ts0 k = Some t0 \<and> \<not> terminal (status t0) \<and>
          map_of (st_tasks (visit n s)) k = Some u \<and> ran_as t0 u"
    proof (cases "k = n")
      case True
      with t0 run(2,4) show ?thesis by (simp add: mo)
    next
      case False
      with k have "k \<in> ?E" by (simp add: run(6))
      from ran[OF this] False show ?thesis by (simp add: mo)
    qed
  qed
  have c4: "executed_tasks (visit n s) \<subseteq> resolvable ts0"
    using res n_res by (simp add: run(6))
  have c5: "\<forall>k. LogExecutingTask k \<in> set (st_log (visit n s)) \<longleftrightarrow> k \<in> executed_tasks (visit n s)"
    using log1 by (auto simp: run(6,8))
  have c6: "\<forall>k m. LogTaskFailed k m \<in> set (st_log (visit n s)) \<longrightarrow>
          (\<exists>u. map_of (st_tasks (visit n s)) k = Some u \<and> status u = FAILED \<and> error u = Some m)"
  proof (intro allI impI)
    fix k m assume lg: "LogTaskFailed k m \<in> set (st_log (visit n s))"
    show "\<exists>u. map_of (st_tasks (visit n s)) k = Some u \<and> status u = FAILED \<and> error u = Some m"
    proof (cases "LogTaskFailed k m \<in> set (st_log s)")
      case True
      from log2[OF this] obtain u where u: "map_of (st_tasks s) k = Some u" "status u = FAILED"
          "error u = Some m" by blast
      then have "terminal (status u)" by (simp add: terminal_def)
      with u run(1,2) have "k \<noteq> n" by auto
      with u show ?thesis by (simp add: mo)
    next
      case False
      with lg have "k = n" "status t' = FAILED" "m = the (error t')"
        by (auto simp: run(8) split: if_splits)
      moreover from this run(4) have "error t' = Some m" by (auto simp: ran_as_def)
      ultimately show ?thesis by (simp add: mo)
    qed
  qed
  have c7: "\<forall>k u0. k \<in> executed_tasks (visit n s) \<and> map_of ts0 k = Some u0 \<longrightarrow>
          set (dependencies u0) \<subseteq> executed_tasks (visit n s)"
  proof (intro allI impI, elim conjE)
    fix k u0 assume k: "k \<in> executed_tasks (visit n s)" and u0: "map_of ts0 k = Some u0"
    show "set (dependencies u0) \<subseteq> executed_tasks (visit n s)"
    proof (cases "k = n")
      case True
      with u0 t0 have "u0 = t" by simp
      with run(3) show ?thesis by (auto simp: deps_met_def list_all_iff run(6))
    next
      case False
      with k have "k \<in> ?E" by (simp add: run(6))
      from closed[OF this u0] show ?thesis by (auto simp: run(6))
    qed
  qed
  show ?thesis unfolding run_inv_def using c1 c2 c3 c4 c5 c6 c7 by blast
qed

lemma run_inv_final: "run_inv ts0 (snd (run_loop (init_state ts0 c wn)))"
  by (rule run_loop_invariant[where P = "run_inv ts0"])
     (auto intro: run_inv_init run_inv_visit run_inv_flag)

subsection \<open>From the loop to \<^verbatim>\<open>execute_workflow\<close>\<close>

lemma execute_registered:
  assumes "workflows eng wn = Some w"
  shows "fst (execute_workflow eng wn c) = fst (run_loop (init_state (tasks w) c wn))"
    and "workflows (fst (snd (execute_workflow eng wn c))) wn =
           Some (w\<lparr>tasks := st_tasks (snd (run_loop (init_state (tasks w) c wn)))\<rparr>)"
    and "snd (snd (execute_workflow eng wn c)) =
           st_log (snd (run_loop (init_state (tasks w) c wn))) @
             (case fst (run_loop (init_state (tasks w) c wn)) of
                Inl e \<Rightarrow> []
              | Inr rep \<Rightarrow>
                  [LogWorkflowCompleted wn
                     (success_count (st_tasks (snd (run_loop (init_state (tasks w) c wn)))))
                     (length (st_tasks (snd (run_loop (init_state (tasks w) c wn)))))])"
proof -
  obtain r s where rs: "run_loop (init_state (tasks w) c wn) = (r, s)"
    by (cases "run_loop (init_state (tasks w) c wn)")
  show "fst (execute_workflow eng wn c) = fst (run_loop (init_state (tasks w) c wn))"
    using assms rs by (simp add: execute_workflow_def)
  show "workflows (fst (snd (execute_workflow eng wn c))) wn =
           Some (w\<lparr>tasks := st_tasks (snd (run_loop (init_state (tasks w) c wn)))\<rparr>)"
    using assms rs by (simp add: execute_workflow_def)
  show "snd (snd (execute_workflow eng wn c)) =
           st_log (snd (run_loop (init_state (tasks w) c wn))) @
             (case fst (run_loop (init_state (tasks w) c wn)) of
                Inl e \<Rightarrow> []
              | Inr rep \<Rightarrow>
                  [LogWorkflowCompleted wn
                     (success_count (st_tasks (snd (run_loop (init_state (tasks w) c wn)))))
                     (length (st_tasks (snd (run_loop (init_state (tasks w) c wn)))))])"
    using assms rs by (simp add: execute_workflow_def split: sum.split)
qed

lemma run_inv_executed_keys: "run_inv ts0 s \<Longrightarrow> executed_tasks s \<subseteq> set (map fst ts0)"
proof
  fix n assume inv: "run_inv ts0 s" and "n \<in> executed_tasks s"
  then obtain t0 where "map_of ts0 n = Some t0" unfolding run_inv_def by blast
  then have "(n, t0) \<in> set ts0" by (rule map_of_SomeD)
  then show "n \<in> set (map fst ts0)" by force
qed

lemma run_inv_remaining:
  assumes "run_inv ts0 s"
  shows "set (remaining s) = set (map fst ts0) - executed_tasks s"
  using assms by (auto simp: remaining_def run_inv_def)

lemma returned_all_executed:
  assumes inv: "run_inv ts0 s" and full: "length (st_tasks s) \<le> card (executed_tasks s)"
  shows "executed_tasks s = set (map fst ts0)" and "distinct (map fst ts0)"
proof -
  let ?K = "set (map fst ts0)"
  have sub: "executed_tasks s \<subseteq> ?K" using inv by (rule run_inv_executed_keys)
  have len: "length (st_tasks s) = length (map fst ts0)"
    using inv unfolding run_inv_def by (metis length_map)
  have "card (executed_tasks s) \<le> card ?K" using sub by (simp add: card_mono)
  moreover have "card ?K \<le> length (map fst ts0)" by (rule card_length)
  ultimately have eq: "card (executed_tasks s) = card ?K" "card ?K = length (map fst ts0)"
    using full len by linarith+
  show "executed_tasks s = ?K" using sub eq(1) by (simp add: card_subset_eq)
  show "distinct (map fst ts0)" using eq(2) by (rule card_distinct)
qed

text \<open>
  A task that is terminal before the call is skipped by every scan and never joins
  \<^verbatim>\<open>executed_tasks\<close>; the loop condition of line 114 then never becomes false, and the call
  ends with the error of line 142, which lists that task.
\<close>

lemma preseeded_terminal_deadlocks:
  assumes reg: "workflows eng wn = Some w"
    and look: "map_of (tasks w) n = Some t" and fin: "terminal (status t)"
  shows "\<exists>rem. fst (execute_workflow eng wn c) = Inl (CannotExecute rem) \<and> n \<in> set rem"
proof -
  let ?s = "snd (run_loop (init_state (tasks w) c wn))"
  have inv: "run_inv (tasks w) ?s" by (rule run_inv_final)
  have out: "n \<notin> executed_tasks ?s"
  proof
    assume "n \<in> executed_tasks ?s"
    with inv obtain t0 where "map_of (tasks w) n = Some t0" "\<not> terminal (status t0)"
      unfolding run_inv_def by blast
    with look fin show False by simp
  qed
  from map_of_SomeD[OF look] have key: "n \<in> set (map fst (tasks w))" by force
  have "fst (run_loop (init_state (tasks w) c wn)) = Inl (CannotExecute (remaining ?s))"
  proof (cases "init_state (tasks w) c wn" rule: run_loop_final)
    case returned
    from returned_all_executed(1)[OF inv returned(2)] key out show ?thesis by blast
  next
    case stuck
    then show ?thesis by blast
  qed
  moreover have "n \<in> set (remaining ?s)"
    using run_inv_remaining[OF inv] key out by blast
  ultimately show ?thesis using execute_registered(1)[OF reg] by simp
qed

text \<open>A workflow that deadlocks after one task ran: \<^verbatim>\<open>b\<close> names a task never added.\<close>

definition partial_wf :: Workflow where
  "partial_wf =
     add_task
       (add_task (new_workflow ''partial'' '''') ''a'' (\<lambda>c. (Returned (PyInt 1), c)) None)
       ''b'' (\<lambda>c. (Returned (PyInt 2), c)) (Some [''missing''])"

text \<open>
  Claim C10. When \<^verbatim>\<open>execute_workflow\<close> fails with the cannot-execute error, the engine
  still holds the workflow, with the same keys in the same order; every task that is not
  listed in the error was run by this call and keeps what the run made of it (completed
  with the stored result, or failed with the stored error); every task listed in the
  error is as it was before the call. So the call is not atomic.
\<close>

theorem deadlock_keeps_partial_state:
  assumes reg: "workflows eng wn = Some w"
    and err: "fst (execute_workflow eng wn c) = Inl (CannotExecute rem)"
  shows "\<exists>w'. workflows (fst (snd (execute_workflow eng wn c))) wn = Some w' \<and>
           map fst (tasks w') = map fst (tasks w) \<and>
           (\<forall>n\<in>set (map fst (tasks w)) - set rem.
               \<exists>t0 t. map_of (tasks w) n = Some t0 \<and> map_of (tasks w') n = Some t \<and> ran_as t0 t) \<and>
           (\<forall>n\<in>set rem. map_of (tasks w') n = map_of (tasks w) n)"
proof -
  let ?s = "snd (run_loop (init_state (tasks w) c wn))"
  have inv: "run_inv (tasks w) ?s" by (rule run_inv_final)
  have "fst (run_loop (init_state (tasks w) c wn)) = Inl (CannotExecute rem)"
    using err execute_registered(1)[OF reg] by simp
  then have rem: "rem = remaining ?s"
    by (cases "init_state (tasks w) c wn" rule: run_loop_final) simp_all
  have rems: "set rem = set (map fst (tasks w)) - executed_tasks ?s"
    unfolding rem using inv by (rule run_inv_remaining)
  have sub: "executed_tasks ?s \<subseteq> set (map fst (tasks w))"
    using inv by (rule run_inv_executed_keys)
  have a: "map fst (st_tasks ?s) = map fst (tasks w)" using inv unfolding run_inv_def by blast
  have b: "\<forall>n\<in>set (map fst (tasks w)) - set rem.
               \<exists>t0 t. map_of (tasks w) n = Some t0 \<and> map_of (st_tasks ?s) n = Some t \<and> ran_as t0 t"
  proof
    fix n assume "n \<in> set (map fst (tasks w)) - set rem"
    then have "n \<in> executed_tasks ?s" using rems by blast
    then show "\<exists>t0 t. map_of (tasks w) n = Some t0 \<and> map_of (st_tasks ?s) n = Some t \<and> ran_as t0 t"
      using inv unfolding run_inv_def by blast
  qed
  have c: "\<forall>n\<in>set rem. map_of (st_tasks ?s) n = map_of (tasks w) n"
    using rems inv unfolding run_inv_def by blast
  show ?thesis
    using a b c by (simp add: execute_registered(2)[OF reg])
qed

theorem deadlock_keeps_partial_state_witness:
  "workflows (register_workflow new_engine partial_wf) ''partial'' = Some partial_wf
   \<and> fst (execute_workflow (register_workflow new_engine partial_wf) ''partial'' None) =
       Inl (CannotExecute [''b''])
   \<and> (\<exists>w'. workflows (fst (snd (execute_workflow (register_workflow new_engine partial_wf)
                 ''partial'' None))) ''partial'' = Some w' \<and>
           map fst (tasks w') = map fst (tasks partial_wf) \<and>
           (\<forall>n\<in>set (map fst (tasks partial_wf)) - set [''b''].
               \<exists>t0 t. map_of (tasks partial_wf) n = Some t0 \<and> map_of (tasks w') n = Some t \<and>
                 ran_as t0 t) \<and>
           (\<forall>n\<in>set [''b'']. map_of (tasks w') n = map_of (tasks partial_wf) n))"
proof -
  have h1: "workflows (register_workflow new_engine partial_wf) ''partial'' = Some partial_wf"
    by (simp add: register_workflow_def new_engine_def partial_wf_def add_task_def new_workflow_def)
  have h2: "fst (execute_workflow (register_workflow new_engine partial_wf) ''partial'' None) =
       Inl (CannotExecute [''b''])"
    by (simp add: exec_defs partial_wf_def run_loop.simps)
  show ?thesis
    by (intro conjI h1 h2 deadlock_keeps_partial_state[OF h1 h2])
qed

section \<open>The dependency graph\<close>

text \<open>
  The edges of the dependency graph, from a dependency to the task that names it; whether
  every dependency names a task of the workflow; whether every task starts pending (as
  \<^verbatim>\<open>add_task\<close> creates it).
\<close>

definition dep_edges :: "(string \<times> Task) list \<Rightarrow> (string \<times> string) list" where
  "dep_edges ts = concat (map (\<lambda>(n, t). map (\<lambda>d. (d, n)) (dependencies t)) ts)"

definition deps_defined :: "(string \<times> Task) list \<Rightarrow> bool" where
  "deps_defined ts =
     list_all (\<lambda>(n, t). list_all (\<lambda>d. d \<in> set (map fst ts)) (dependencies t)) ts"

definition all_pending :: "(string \<times> Task) list \<Rightarrow> bool" where
  "all_pending ts = list_all (\<lambda>(n, t). status t = PENDING) ts"

lemma dep_edges_iff:
  "(d, n) \<in> set (dep_edges ts) \<longleftrightarrow> (\<exists>t. (n, t) \<in> set ts \<and> d \<in> set (dependencies t))"
  by (auto simp: dep_edges_def)

lemma resolvable_key: "n \<in> resolvable ts \<Longrightarrow> n \<in> set (map fst ts)"
proof (induction rule: resolvable.induct)
  case (resolve n t)
  from map_of_SomeD[OF resolve.hyps(1)] show ?case by force
qed

lemma key_lookup: "n \<in> set (map fst ts) \<Longrightarrow> \<exists>t. map_of ts n = Some t"
  by (cases "map_of ts n") (auto simp: map_of_eq_None_iff)

lemma all_resolvable:
  assumes acyc: "acyclic (set (dep_edges ts))" and defd: "deps_defined ts"
  shows "n \<in> set (map fst ts) \<Longrightarrow> n \<in> resolvable ts"
proof -
  have "wf (set (dep_edges ts))" using acyc by (simp add: finite_acyclic_wf)
  then show "n \<in> set (map fst ts) \<Longrightarrow> n \<in> resolvable ts"
  proof (induction n rule: wf_induct_rule)
    case (less n)
    from key_lookup[OF less.prems] obtain t where t: "map_of ts n = Some t" by blast
    then have mem: "(n, t) \<in> set ts" by (rule map_of_SomeD)
    have "\<forall>d\<in>set (dependencies t). d \<in> resolvable ts"
    proof
      fix d assume d: "d \<in> set (dependencies t)"
      with mem have e: "(d, n) \<in> set (dep_edges ts)" by (auto simp: dep_edges_iff)
      from defd mem d have "d \<in> set (map fst ts)"
        by (auto simp: deps_defined_def list_all_iff)
      with less.IH[OF e] show "d \<in> resolvable ts" by blast
    qed
    with t show ?case by (rule resolvable.resolve)
  qed
qed

lemma resolvable_no_cycle:
  assumes keys: "distinct (map fst ts)"
  shows "n \<in> resolvable ts \<Longrightarrow> (n, n) \<notin> (set (dep_edges ts))\<^sup>+"
proof (induction rule: resolvable.induct)
  case (resolve n t)
  show ?case
  proof
    assume "(n, n) \<in> (set (dep_edges ts))\<^sup>+"
    then obtain d where nd: "(n, d) \<in> (set (dep_edges ts))\<^sup>*" and dn: "(d, n) \<in> set (dep_edges ts)"
      by (meson tranclD2)
    from dn obtain t' where t': "(n, t') \<in> set ts" "d \<in> set (dependencies t')"
      by (auto simp: dep_edges_iff)
    from keys t'(1) have "map_of ts n = Some t'" by simp
    with resolve.hyps(1) have "t' = t" by simp
    with t'(2) resolve.IH have "(d, d) \<notin> (set (dep_edges ts))\<^sup>+" by blast
    moreover from dn nd have "(d, d) \<in> (set (dep_edges ts))\<^sup>+" by (rule rtrancl_into_trancl2)
    ultimately show False by contradiction
  qed
qed

lemma resolvable_dep:
  assumes "n \<in> resolvable ts" and "map_of ts n = Some t" and "d \<in> set (dependencies t)"
  shows "d \<in> resolvable ts"
  using assms by (auto elim: resolvable.cases)

lemma unresolvable_exists:
  assumes keys: "distinct (map fst ts)"
    and bad: "\<not> acyclic (set (dep_edges ts)) \<or> \<not> deps_defined ts"
  shows "\<exists>n \<in> set (map fst ts). n \<notin> resolvable ts"
  using bad
proof
  assume "\<not> acyclic (set (dep_edges ts))"
  then obtain x where x: "(x, x) \<in> (set (dep_edges ts))\<^sup>+" by (auto simp: acyclic_def)
  then obtain d where "(d, x) \<in> set (dep_edges ts)" by (meson tranclD2)
  then have "x \<in> set (map fst ts)" by (force simp: dep_edges_iff)
  moreover have "x \<notin> resolvable ts" using resolvable_no_cycle[OF keys] x by blast
  ultimately show ?thesis by blast
next
  assume "\<not> deps_defined ts"
  then obtain n t d where ntd: "(n, t) \<in> set ts" "d \<in> set (dependencies t)" "d \<notin> set (map fst ts)"
    by (auto simp: deps_defined_def list_all_iff)
  from keys ntd(1) have look: "map_of ts n = Some t" by simp
  have "d \<notin> resolvable ts" using ntd(3) resolvable_key by blast
  then have "n \<notin> resolvable ts" using resolvable_dep[OF _ look ntd(2)] by blast
  moreover from ntd(1) have "n \<in> set (map fst ts)" by force
  ultimately show ?thesis by blast
qed

lemma stuck_resolvable_executed:
  assumes inv: "run_inv ts0 s" and stuck: "\<forall>n. \<not> runnable s n"
    and open0: "\<forall>n t. map_of ts0 n = Some t \<longrightarrow> \<not> terminal (status t)"
  shows "n \<in> resolvable ts0 \<Longrightarrow> n \<in> executed_tasks s"
proof (induction rule: resolvable.induct)
  case (resolve n t)
  show ?case
  proof (rule ccontr)
    assume new: "n \<notin> executed_tasks s"
    with inv have "map_of (st_tasks s) n = map_of ts0 n" unfolding run_inv_def by blast
    with resolve.hyps(1) have look: "map_of (st_tasks s) n = Some t" by simp
    have "\<not> terminal (status t)" using open0 resolve.hyps(1) by blast
    moreover have "deps_met t (executed_tasks s)"
      using resolve.IH by (simp add: deps_met_def list_all_iff)
    ultimately have "runnable s n" using look by (simp add: runnable_def)
    with stuck show False by blast
  qed
qed

lemma all_pending_open:
  "all_pending ts \<Longrightarrow> map_of ts n = Some t \<Longrightarrow> status t = PENDING"
  by (auto simp: all_pending_def list_all_iff dest: map_of_SomeD)

lemma all_pending_not_terminal:
  "all_pending ts \<Longrightarrow> \<forall>n t. map_of ts n = Some t \<longrightarrow> \<not> terminal (status t)"
  by (auto simp: terminal_def dest: all_pending_open)

lemma collect_results_keys: "map fst (collect_results ts) = map fst ts"
  by (induction ts) (auto simp: collect_results_def)

lemma collect_results_lookup:
  "map_of (collect_results ts) n =
     map_option (\<lambda>t. \<lparr>r_status = status_value (status t), r_result = result t, r_error = error t\<rparr>)
       (map_of ts n)"
  by (induction ts) (auto simp: collect_results_def)

lemma acyclic_by_rank:
  fixes f :: "string \<Rightarrow> nat"
  assumes "list_all (\<lambda>(d, n). f d < f n) es"
  shows "acyclic (set es)"
proof -
  have "set es \<subseteq> measure f" using assms by (auto simp: list_all_iff)
  moreover have "acyclic (measure f)" by (rule wf_acyclic) simp
  ultimately show ?thesis by (rule acyclic_subset[rotated])
qed

lemma fresh_acyclic_returns:
  assumes keys: "distinct (map fst ts)" and fresh: "all_pending ts"
    and defd: "deps_defined ts" and acyc: "acyclic (set (dep_edges ts))"
  shows "fst (run_loop (init_state ts c wn)) =
           Inr (collect_results (st_tasks (snd (run_loop (init_state ts c wn)))))"
    and "executed_tasks (snd (run_loop (init_state ts c wn))) = set (map fst ts)"
proof -
  let ?s = "snd (run_loop (init_state ts c wn))"
  have inv: "run_inv ts ?s" by (rule run_inv_final)
  have sub: "executed_tasks ?s \<subseteq> set (map fst ts)" using inv by (rule run_inv_executed_keys)
  have len: "length (st_tasks ?s) = length (map fst ts)"
    using inv unfolding run_inv_def by (metis length_map)
  have both: "fst (run_loop (init_state ts c wn)) = Inr (collect_results (st_tasks ?s)) \<and>
              executed_tasks ?s = set (map fst ts)"
  proof (cases "init_state ts c wn" rule: run_loop_final)
    case returned
    with returned_all_executed(1)[OF inv] show ?thesis by simp
  next
    case stuck
    have "set (map fst ts) \<subseteq> executed_tasks ?s"
    proof
      fix n assume "n \<in> set (map fst ts)"
      then have "n \<in> resolvable ts" by (rule all_resolvable[OF acyc defd])
      then show "n \<in> executed_tasks ?s"
        by (rule stuck_resolvable_executed[OF inv stuck(3) all_pending_not_terminal[OF fresh]])
    qed
    with sub have "executed_tasks ?s = set (map fst ts)" by blast
    moreover have "card (set (map fst ts)) = length (map fst ts)"
      using keys by (rule distinct_card)
    ultimately have "card (executed_tasks ?s) = length (map fst ts)"
      by (simp only:)
    with stuck(2) len show ?thesis by simp
  qed
  show "fst (run_loop (init_state ts c wn)) = Inr (collect_results (st_tasks ?s))"
    using both by blast
  show "executed_tasks ?s = set (map fst ts)" using both by blast
qed

lemma run_inv_executed_status:
  assumes inv: "run_inv ts0 s" and n: "n \<in> executed_tasks s"
    and look: "map_of (st_tasks s) n = Some t"
  shows "status t = COMPLETED \<or> status t = FAILED"
proof -
  from inv n obtain t0 u where "map_of (st_tasks s) n = Some u" "ran_as t0 u"
    unfolding run_inv_def by blast
  with look show ?thesis by (auto dest: ran_as_status)
qed

text \<open>
  Claim C1. For a registered workflow whose keys are unique (as in every dictionary),
  whose tasks all start pending, whose dependencies all name tasks of the workflow and
  whose dependency graph is acyclic, \<^verbatim>\<open>execute_workflow\<close> returns a report (the loop is a
  total function: it ends for every state, here without the deadlock error); the report
  has the keys of the workflow, in order, so one entry per task; every entry is completed
  or failed.
\<close>

theorem acyclic_workflow_completes:
  assumes reg: "workflows eng wn = Some w"
    and keys: "distinct (map fst (tasks w))"
    and fresh: "all_pending (tasks w)"
    and defd: "deps_defined (tasks w)"
    and acyc: "acyclic (set (dep_edges (tasks w)))"
  shows "\<exists>rep. fst (execute_workflow eng wn c) = Inr rep \<and>
           map fst rep = map fst (tasks w) \<and>
           list_all (\<lambda>(n, e). r_status e = ''completed'' \<or> r_status e = ''failed'') rep"
proof -
  let ?s = "snd (run_loop (init_state (tasks w) c wn))"
  let ?rep = "collect_results (st_tasks ?s)"
  have inv: "run_inv (tasks w) ?s" by (rule run_inv_final)
  have same_keys: "map fst (st_tasks ?s) = map fst (tasks w)"
    using inv unfolding run_inv_def by blast
  have ret: "fst (execute_workflow eng wn c) = Inr ?rep"
    using fresh_acyclic_returns(1)[OF keys fresh defd acyc] execute_registered(1)[OF reg] by simp
  have ex: "executed_tasks ?s = set (map fst (tasks w))"
    by (rule fresh_acyclic_returns(2)[OF keys fresh defd acyc])
  have "r_status e = ''completed'' \<or> r_status e = ''failed''" if "(n, e) \<in> set ?rep" for n e
  proof -
    from that obtain t where t: "(n, t) \<in> set (st_tasks ?s)"
        and e: "e = \<lparr>r_status = status_value (status t), r_result = result t, r_error = error t\<rparr>"
      by (auto simp: collect_results_def)
    from keys same_keys have "distinct (map fst (st_tasks ?s))" by simp
    with t have look: "map_of (st_tasks ?s) n = Some t" by simp
    from t have "n \<in> set (map fst (st_tasks ?s))" by force
    with ex same_keys have "n \<in> executed_tasks ?s" by simp
    from run_inv_executed_status[OF inv this look] e show ?thesis by auto
  qed
  then have "list_all (\<lambda>(n, e). r_status e = ''completed'' \<or> r_status e = ''failed'') ?rep"
    by (auto simp: list_all_iff)
  with ret same_keys show ?thesis by (auto simp: collect_results_keys)
qed

lemma order_wf_tasks:
  "tasks order_wf =
     [(''validate'', new_task ''validate'' (\<lambda>c. (Returned (PyDict [(''valid'', PyBool True)]), c)) []),
      (''payment'', new_task ''payment''
          (\<lambda>c. (Returned (PyDict [(''payment_id'', PyStr ''pay_123'')]), c)) [''validate'']),
      (''fulfill'', new_task ''fulfill'' (\<lambda>c. (Returned (PyDict [(''shipped'', PyBool True)]), c))
          [''payment''])]"
  by (simp add: order_wf_def add_task_def new_workflow_def)

theorem acyclic_workflow_completes_witness:
  "workflows (register_workflow new_engine order_wf) ''order'' = Some order_wf
   \<and> distinct (map fst (tasks order_wf))
   \<and> all_pending (tasks order_wf)
   \<and> deps_defined (tasks order_wf)
   \<and> acyclic (set (dep_edges (tasks order_wf)))
   \<and> (\<exists>rep. fst (execute_workflow (register_workflow new_engine order_wf) ''order'' None) = Inr rep \<and>
           map fst rep = map fst (tasks order_wf) \<and>
           list_all (\<lambda>(n, e). r_status e = ''completed'' \<or> r_status e = ''failed'') rep)"
proof -
  have h1: "workflows (register_workflow new_engine order_wf) ''order'' = Some order_wf"
    by (simp add: register_workflow_def new_engine_def order_wf_def add_task_def new_workflow_def)
  have h2: "distinct (map fst (tasks order_wf))" by (simp add: order_wf_tasks)
  have h3: "all_pending (tasks order_wf)"
    by (simp add: order_wf_tasks all_pending_def new_task_def)
  have h4: "deps_defined (tasks order_wf)"
    by (simp add: order_wf_tasks deps_defined_def new_task_def)
  have h5: "acyclic (set (dep_edges (tasks order_wf)))"
    by (rule acyclic_by_rank[where f = "\<lambda>n. if n = ''validate'' then 0 else if n = ''payment'' then 1 else 2"])
       (simp add: order_wf_tasks dep_edges_def new_task_def)
  show ?thesis
    by (intro conjI h1 h2 h3 h4 h5 acyclic_workflow_completes[OF h1 h2 h3 h4 h5])
qed

text \<open>The two-task cycle of the specification: \<^verbatim>\<open>A\<close> waits for \<^verbatim>\<open>B\<close>, \<^verbatim>\<open>B\<close> for \<^verbatim>\<open>A\<close>.\<close>

definition cycle_wf :: Workflow where
  "cycle_wf =
     add_task
       (add_task (new_workflow ''cycle'' '''') ''A'' (\<lambda>c. (Returned (PyInt 1), c)) (Some [''B'']))
       ''B'' (\<lambda>c. (Returned (PyInt 2), c)) (Some [''A''])"

lemma cycle_wf_tasks:
  "tasks cycle_wf =
     [(''A'', new_task ''A'' (\<lambda>c. (Returned (PyInt 1), c)) [''B'']),
      (''B'', new_task ''B'' (\<lambda>c. (Returned (PyInt 2), c)) [''A''])]"
  by (simp add: cycle_wf_def add_task_def new_workflow_def)

lemma execute_log_failed:
  assumes reg: "workflows eng wn = Some w"
    and lg: "LogTaskFailed n m \<in> set (snd (snd (execute_workflow eng wn c)))"
  shows "LogTaskFailed n m \<in> set (st_log (snd (run_loop (init_state (tasks w) c wn))))"
  using lg unfolding execute_registered(3)[OF reg] by (auto split: sum.splits)

lemma execute_log_started:
  assumes reg: "workflows eng wn = Some w"
  shows "LogExecutingTask n \<in> set (snd (snd (execute_workflow eng wn c))) \<longleftrightarrow>
         n \<in> executed_tasks (snd (run_loop (init_state (tasks w) c wn)))"
proof -
  have inv: "run_inv (tasks w) (snd (run_loop (init_state (tasks w) c wn)))" by (rule run_inv_final)
  then have "LogExecutingTask n \<in> set (st_log (snd (run_loop (init_state (tasks w) c wn)))) \<longleftrightarrow>
         n \<in> executed_tasks (snd (run_loop (init_state (tasks w) c wn)))"
    unfolding run_inv_def by blast
  then show ?thesis unfolding execute_registered(3)[OF reg] by (auto split: sum.splits)
qed

lemma run_loop_returned:
  assumes "fst (run_loop s) = Inr rep"
  shows "rep = collect_results (st_tasks (snd (run_loop s)))"
    and "length (st_tasks (snd (run_loop s))) \<le> card (executed_tasks (snd (run_loop s)))"
  using assms by (cases s rule: run_loop_final; simp)+

text \<open>
  Claim C4. For a registered workflow with unique keys: when the dependency graph has a
  cycle, or a task names a dependency that was never added, \<^verbatim>\<open>execute_workflow\<close> fails with
  the cannot-execute error. The list in the error is not empty and holds, in insertion
  order, exactly the tasks this call never started. Every task on a cycle is listed, and
  so is every task with a dependency that is missing or is itself listed (the transitive
  dependents). When all tasks started pending, the list is exactly the tasks that can
  never be resolved, and exactly the tasks still pending in the workflow after the call.
\<close>

theorem deadlock_lists_unresolved:
  assumes reg: "workflows eng wn = Some w"
    and keys: "distinct (map fst (tasks w))"
    and bad: "\<not> acyclic (set (dep_edges (tasks w))) \<or> \<not> deps_defined (tasks w)"
  shows "\<exists>rem w'. fst (execute_workflow eng wn c) = Inl (CannotExecute rem) \<and>
           rem \<noteq> [] \<and>
           rem = filter (\<lambda>n. LogExecutingTask n \<notin> set (snd (snd (execute_workflow eng wn c))))
                   (map fst (tasks w)) \<and>
           (\<forall>n. (n, n) \<in> (set (dep_edges (tasks w)))\<^sup>+ \<longrightarrow> n \<in> set rem) \<and>
           (\<forall>(n, t)\<in>set (tasks w). \<forall>d\<in>set (dependencies t).
               d \<notin> set (map fst (tasks w)) \<or> d \<in> set rem \<longrightarrow> n \<in> set rem) \<and>
           workflows (fst (snd (execute_workflow eng wn c))) wn = Some w' \<and>
           (all_pending (tasks w) \<longrightarrow>
              rem = filter (\<lambda>n. n \<notin> resolvable (tasks w)) (map fst (tasks w)) \<and>
              (\<forall>n\<in>set (map fst (tasks w)).
                  n \<in> set rem \<longleftrightarrow> (\<exists>t. map_of (tasks w') n = Some t \<and> status t = PENDING)))"
proof -
  let ?ts = "tasks w"
  let ?s = "snd (run_loop (init_state ?ts c wn))"
  let ?rem = "remaining ?s"
  have inv: "run_inv ?ts ?s" by (rule run_inv_final)
  have same_keys: "map fst (st_tasks ?s) = map fst ?ts" using inv unfolding run_inv_def by blast
  have sub_res: "executed_tasks ?s \<subseteq> resolvable ?ts" using inv unfolding run_inv_def by blast
  have sub_keys: "executed_tasks ?s \<subseteq> set (map fst ?ts)" using inv by (rule run_inv_executed_keys)
  have closed: "set (dependencies t) \<subseteq> executed_tasks ?s"
    if "n \<in> executed_tasks ?s" "map_of ?ts n = Some t" for n t
    using inv that unfolding run_inv_def by blast
  have rem_iff: "n \<in> set ?rem \<longleftrightarrow> n \<in> set (map fst ?ts) \<and> n \<notin> executed_tasks ?s" for n
    using run_inv_remaining[OF inv] by blast
  from unresolvable_exists[OF keys bad] obtain k where k: "k \<in> set (map fst ?ts)" "k \<notin> resolvable ?ts"
    by blast
  have stuck: "fst (run_loop (init_state ?ts c wn)) = Inl (CannotExecute ?rem) \<and>
               (\<forall>n. \<not> runnable ?s n)"
  proof (cases "init_state ?ts c wn" rule: run_loop_final)
    case returned
    from returned_all_executed(1)[OF inv returned(2)] k sub_res show ?thesis by blast
  next
    case stuck
    then show ?thesis by blast
  qed
  have c1: "fst (execute_workflow eng wn c) = Inl (CannotExecute ?rem)"
    using stuck execute_registered(1)[OF reg] by simp
  have c2: "?rem \<noteq> []"
  proof -
    from k sub_res have "k \<in> set ?rem" unfolding rem_iff by blast
    then show ?thesis by auto
  qed
  have c3: "?rem = filter (\<lambda>n. LogExecutingTask n \<notin> set (snd (snd (execute_workflow eng wn c))))
                   (map fst ?ts)"
    by (simp add: remaining_def same_keys execute_log_started[OF reg])
  have c4: "\<forall>n. (n, n) \<in> (set (dep_edges ?ts))\<^sup>+ \<longrightarrow> n \<in> set ?rem"
  proof (intro allI impI)
    fix n assume cyc: "(n, n) \<in> (set (dep_edges ?ts))\<^sup>+"
    then obtain d where "(d, n) \<in> set (dep_edges ?ts)" by (meson tranclD2)
    then have "n \<in> set (map fst ?ts)" by (force simp: dep_edges_iff)
    moreover have "n \<notin> resolvable ?ts" using resolvable_no_cycle[OF keys] cyc by blast
    ultimately show "n \<in> set ?rem" using sub_res unfolding rem_iff by blast
  qed
  have c5: "\<forall>(n, t)\<in>set ?ts. \<forall>d\<in>set (dependencies t).
               d \<notin> set (map fst ?ts) \<or> d \<in> set ?rem \<longrightarrow> n \<in> set ?rem"
  proof (intro ballI impI, clarify)
    fix n t d
    assume nt: "(n, t) \<in> set ?ts" and d: "d \<in> set (dependencies t)"
      and blocked: "d \<notin> set (map fst ?ts) \<or> d \<in> set ?rem"
    from keys nt have look: "map_of ?ts n = Some t" by simp
    from blocked sub_keys have "d \<notin> executed_tasks ?s" unfolding rem_iff by blast
    with closed[OF _ look] d have "n \<notin> executed_tasks ?s" by blast
    moreover from nt have "n \<in> set (map fst ?ts)" by force
    ultimately show "n \<in> set ?rem" unfolding rem_iff by blast
  qed
  have c6: "workflows (fst (snd (execute_workflow eng wn c))) wn = Some (w\<lparr>tasks := st_tasks ?s\<rparr>)"
    by (rule execute_registered(2)[OF reg])
  have c7: "?rem = filter (\<lambda>n. n \<notin> resolvable ?ts) (map fst ?ts) \<and>
            (\<forall>n\<in>set (map fst ?ts).
                n \<in> set ?rem \<longleftrightarrow> (\<exists>t. map_of (st_tasks ?s) n = Some t \<and> status t = PENDING))"
    if fresh: "all_pending ?ts"
  proof
    have ex: "executed_tasks ?s = resolvable ?ts"
    proof
      show "executed_tasks ?s \<subseteq> resolvable ?ts" by (rule sub_res)
      show "resolvable ?ts \<subseteq> executed_tasks ?s"
        using stuck_resolvable_executed[OF inv _ all_pending_not_terminal[OF fresh]] stuck by blast
    qed
    then show "?rem = filter (\<lambda>n. n \<notin> resolvable ?ts) (map fst ?ts)"
      by (simp add: remaining_def same_keys)
    show "\<forall>n\<in>set (map fst ?ts).
                n \<in> set ?rem \<longleftrightarrow> (\<exists>t. map_of (st_tasks ?s) n = Some t \<and> status t = PENDING)"
    proof
      fix n assume n: "n \<in> set (map fst ?ts)"
      show "n \<in> set ?rem \<longleftrightarrow> (\<exists>t. map_of (st_tasks ?s) n = Some t \<and> status t = PENDING)"
      proof (cases "n \<in> executed_tasks ?s")
        case True
        with inv obtain t0 u where u: "map_of (st_tasks ?s) n = Some u" "ran_as t0 u"
          unfolding run_inv_def by blast
        then have "status u \<noteq> PENDING" by (auto dest: ran_as_status)
        with u True show ?thesis unfolding rem_iff by auto
      next
        case False
        with inv have same: "map_of (st_tasks ?s) n = map_of ?ts n" unfolding run_inv_def by blast
        from key_lookup[OF n] obtain t where t: "map_of ?ts n = Some t" by blast
        with all_pending_open[OF fresh t] same False n show ?thesis unfolding rem_iff by auto
      qed
    qed
  qed
  have sel: "tasks (w\<lparr>tasks := st_tasks ?s\<rparr>) = st_tasks ?s" by simp
  have c8: "all_pending ?ts \<longrightarrow>
              ?rem = filter (\<lambda>n. n \<notin> resolvable ?ts) (map fst ?ts) \<and>
              (\<forall>n\<in>set (map fst ?ts).
                  n \<in> set ?rem \<longleftrightarrow>
                  (\<exists>t. map_of (tasks (w\<lparr>tasks := st_tasks ?s\<rparr>)) n = Some t \<and> status t = PENDING))"
    unfolding sel using c7 by blast
  show ?thesis
    by (intro exI[of _ ?rem] exI[of _ "w\<lparr>tasks := st_tasks ?s\<rparr>"] conjI c1 c2 c3 c4 c5 c6 c8)
qed

theorem deadlock_lists_unresolved_witness:
  "workflows (register_workflow new_engine cycle_wf) ''cycle'' = Some cycle_wf
   \<and> distinct (map fst (tasks cycle_wf))
   \<and> all_pending (tasks cycle_wf)
   \<and> \<not> acyclic (set (dep_edges (tasks cycle_wf)))
   \<and> fst (execute_workflow (register_workflow new_engine cycle_wf) ''cycle'' None) =
       Inl (CannotExecute [''A'', ''B''])
   \<and> filter (\<lambda>n. n \<notin> resolvable (tasks cycle_wf)) (map fst (tasks cycle_wf)) = [''A'', ''B'']"
proof -
  let ?E = "register_workflow new_engine cycle_wf"
  have h1: "workflows ?E ''cycle'' = Some cycle_wf"
    by (simp add: register_workflow_def new_engine_def cycle_wf_def add_task_def new_workflow_def)
  have h2: "distinct (map fst (tasks cycle_wf))" by (simp add: cycle_wf_tasks)
  have h3: "all_pending (tasks cycle_wf)"
    by (simp add: cycle_wf_tasks all_pending_def new_task_def)
  have edges: "set (dep_edges (tasks cycle_wf)) = {(''B'', ''A''), (''A'', ''B'')}"
    by (simp add: cycle_wf_tasks dep_edges_def new_task_def)
  have "(''A'', ''A'') \<in> {(''B'', ''A''), (''A'', ''B'')}\<^sup>+"
    by (rule trancl_trans[of _ "''B''"]) auto
  then have h4: "\<not> acyclic (set (dep_edges (tasks cycle_wf)))"
    unfolding edges acyclic_def by blast
  have run: "fst (execute_workflow ?E ''cycle'' None) = Inl (CannotExecute [''A'', ''B''])"
    by (simp add: exec_defs cycle_wf_def run_loop.simps)
  from deadlock_lists_unresolved[OF h1 h2 disjI1[OF h4], of None] run h3
  have "filter (\<lambda>n. n \<notin> resolvable (tasks cycle_wf)) (map fst (tasks cycle_wf)) = [''A'', ''B'']"
    by auto
  with h1 h2 h3 h4 run show ?thesis by blast
qed

section \<open>Failing actions\<close>

text \<open>The order workflow with a payment action that raises.\<close>

definition failing_order_wf :: Workflow where
  "failing_order_wf =
     add_task
       (add_task
          (add_task (new_workflow ''order'' '''') ''validate''
             (\<lambda>c. (Returned (PyDict [(''valid'', PyBool True)]), c)) None)
          ''payment'' (\<lambda>c. (Raised ''card declined'', c)) (Some [''validate'']))
       ''fulfill'' (\<lambda>c. (Returned (PyDict [(''shipped'', PyBool True)]), c)) (Some [''payment''])"

lemma failing_order_wf_tasks:
  "tasks failing_order_wf =
     [(''validate'', new_task ''validate'' (\<lambda>c. (Returned (PyDict [(''valid'', PyBool True)]), c)) []),
      (''payment'', new_task ''payment'' (\<lambda>c. (Raised ''card declined'', c)) [''validate'']),
      (''fulfill'', new_task ''fulfill'' (\<lambda>c. (Returned (PyDict [(''shipped'', PyBool True)]), c))
          [''payment''])]"
  by (simp add: failing_order_wf_def add_task_def new_workflow_def)

section \<open>Result and error in the report\<close>

text \<open>A workflow whose only action returns \<^verbatim>\<open>None\<close>, as a Python function without \<^verbatim>\<open>return\<close> does.\<close>

definition quiet_wf :: Workflow where
  "quiet_wf = add_task (new_workflow ''quiet'' '''') ''t'' (\<lambda>c. (Returned PyNone, c)) None"

text \<open>
  Claim C6 as stated fails: the task of \<open>quiet_wf\<close> is completed and its recorded result is
  \<^verbatim>\<open>None\<close>, since line 127 stores whatever the action returns.
\<close>

theorem none_result_counterexample:
  "fst (execute_workflow (register_workflow new_engine quiet_wf) ''quiet'' None) =
     Inr [(''t'', \<lparr>r_status = ''completed'', r_result = PyNone, r_error = None\<rparr>)]
   \<and> \<not> (\<forall>rep. fst (execute_workflow (register_workflow new_engine quiet_wf) ''quiet'' None) = Inr rep
            \<longrightarrow> (\<forall>(n, e)\<in>set rep. r_result e \<noteq> PyNone \<longleftrightarrow> r_status e = ''completed''))"
proof -
  have run: "fst (execute_workflow (register_workflow new_engine quiet_wf) ''quiet'' None) =
     Inr [(''t'', \<lparr>r_status = ''completed'', r_result = PyNone, r_error = None\<rparr>)]"
    by (simp add: exec_defs quiet_wf_def run_loop.simps)
  show ?thesis unfolding run by simp
qed

text \<open>The tasks hold no result and no error from before the call, as \<^verbatim>\<open>add_task\<close> creates them.\<close>

definition clean_values :: "(string \<times> Task) list \<Rightarrow> bool" where
  "clean_values ts = list_all (\<lambda>(n, t). result t = PyNone \<and> error t = None) ts"

text \<open>
  Claim C6, amended. In a report returned for a workflow whose tasks held no result and no
  error before the call, every entry is completed or failed (never skipped); its error is
  set exactly when it is failed; its result is set only when it is completed (a completed
  task holds what its action returned, which may be \<^verbatim>\<open>None\<close>); result and error are never
  both set.
\<close>

theorem report_result_error_exclusive:
  assumes reg: "workflows eng wn = Some w"
    and clean: "clean_values (tasks w)"
    and ret: "fst (execute_workflow eng wn c) = Inr rep"
  shows "list_all (\<lambda>(n, e).
            (r_status e = ''completed'' \<or> r_status e = ''failed'') \<and>
            (r_error e \<noteq> None \<longleftrightarrow> r_status e = ''failed'') \<and>
            (r_result e \<noteq> PyNone \<longrightarrow> r_status e = ''completed'') \<and>
            (r_result e = PyNone \<or> r_error e = None)) rep"
proof -
  let ?s = "snd (run_loop (init_state (tasks w) c wn))"
  have inv: "run_inv (tasks w) ?s" by (rule run_inv_final)
  have r: "fst (run_loop (init_state (tasks w) c wn)) = Inr rep"
    using ret execute_registered(1)[OF reg] by simp
  have rep: "rep = collect_results (st_tasks ?s)" by (rule run_loop_returned(1)[OF r])
  have ex: "executed_tasks ?s = set (map fst (tasks w))"
    and keys: "distinct (map fst (tasks w))"
    using returned_all_executed[OF inv run_loop_returned(2)[OF r]] by blast+
  have same_keys: "map fst (st_tasks ?s) = map fst (tasks w)"
    using inv unfolding run_inv_def by blast
  have "(r_status e = ''completed'' \<or> r_status e = ''failed'') \<and>
            (r_error e \<noteq> None \<longleftrightarrow> r_status e = ''failed'') \<and>
            (r_result e \<noteq> PyNone \<longrightarrow> r_status e = ''completed'') \<and>
            (r_result e = PyNone \<or> r_error e = None)"
    if ne: "(n, e) \<in> set rep" for n e
  proof -
    from ne obtain u where u: "(n, u) \<in> set (st_tasks ?s)"
        and e: "e = \<lparr>r_status = status_value (status u), r_result = result u, r_error = error u\<rparr>"
      unfolding rep by (auto simp: collect_results_def)
    from keys same_keys have "distinct (map fst (st_tasks ?s))" by simp
    with u have look: "map_of (st_tasks ?s) n = Some u" by simp
    from u have "n \<in> set (map fst (st_tasks ?s))" by force
    then have "n \<in> executed_tasks ?s" using ex same_keys by simp
    with inv look obtain t0 where t0: "map_of (tasks w) n = Some t0" "ran_as t0 u"
      unfolding run_inv_def by fastforce
    from map_of_SomeD[OF t0(1)] clean have "result t0 = PyNone" "error t0 = None"
      by (auto simp: clean_values_def list_all_iff)
    with t0(2) e show ?thesis by (auto simp: ran_as_def)
  qed
  then show ?thesis unfolding list_all_iff by blast
qed

theorem report_result_error_exclusive_witness:
  "workflows (register_workflow new_engine failing_order_wf) ''order'' = Some failing_order_wf
   \<and> clean_values (tasks failing_order_wf)
   \<and> fst (execute_workflow (register_workflow new_engine failing_order_wf) ''order'' None) =
       Inr [(''validate'',
             \<lparr>r_status = ''completed'', r_result = PyDict [(''valid'', PyBool True)],
              r_error = None\<rparr>),
            (''payment'',
             \<lparr>r_status = ''failed'', r_result = PyNone, r_error = Some ''card declined''\<rparr>),
            (''fulfill'',
             \<lparr>r_status = ''completed'', r_result = PyDict [(''shipped'', PyBool True)],
              r_error = None\<rparr>)]
   \<and> list_all (\<lambda>(n, e).
            (r_status e = ''completed'' \<or> r_status e = ''failed'') \<and>
            (r_error e \<noteq> None \<longleftrightarrow> r_status e = ''failed'') \<and>
            (r_result e \<noteq> PyNone \<longrightarrow> r_status e = ''completed'') \<and>
            (r_result e = PyNone \<or> r_error e = None))
       [(''validate'',
             \<lparr>r_status = ''completed'', r_result = PyDict [(''valid'', PyBool True)],
              r_error = None\<rparr>),
            (''payment'',
             \<lparr>r_status = ''failed'', r_result = PyNone, r_error = Some ''card declined''\<rparr>),
            (''fulfill'',
             \<lparr>r_status = ''completed'', r_result = PyDict [(''shipped'', PyBool True)],
              r_error = None\<rparr>)]"
proof -
  let ?E = "register_workflow new_engine failing_order_wf"
  have h1: "workflows ?E ''order'' = Some failing_order_wf"
    by (simp add: register_workflow_def new_engine_def failing_order_wf_def add_task_def
        new_workflow_def)
  have h2: "clean_values (tasks failing_order_wf)"
    by (simp add: failing_order_wf_tasks clean_values_def new_task_def)
  have h3: "fst (execute_workflow ?E ''order'' None) =
       Inr [(''validate'',
             \<lparr>r_status = ''completed'', r_result = PyDict [(''valid'', PyBool True)],
              r_error = None\<rparr>),
            (''payment'',
             \<lparr>r_status = ''failed'', r_result = PyNone, r_error = Some ''card declined''\<rparr>),
            (''fulfill'',
             \<lparr>r_status = ''completed'', r_result = PyDict [(''shipped'', PyBool True)],
              r_error = None\<rparr>)]"
    by (simp add: exec_defs failing_order_wf_def run_loop.simps)
  show ?thesis by (intro conjI h1 h2 h3 report_result_error_exclusive[OF h1 h2 h3])
qed

section \<open>The loop as a transition system\<close>

text \<open>
  The control points of the loop, each with the state at that point: the test of the
  \<^verbatim>\<open>while\<close> (line 114); inside the \<^verbatim>\<open>for\<close> loop with the keys still to visit (line 117);
  between marking a task running and the return of its action (lines 124-127), with the
  task object; and the end of the call, with the error raised or the report returned.
\<close>

datatype control =
    AtLoopHead run_state
  | AtScan "string list" run_state
  | AtCall string Task "string list" run_state
  | AtExit "exec_error + report" run_state

fun state_of :: "control \<Rightarrow> run_state" where
  "state_of (AtLoopHead s) = s"
| "state_of (AtScan ns s) = s"
| "state_of (AtCall n t ns s) = s"
| "state_of (AtExit r s) = s"

text \<open>
  One transition per branch of the code, built from the same operations as \<open>visit\<close> and
  \<open>run_loop\<close>.
\<close>

inductive step :: "control \<Rightarrow> control \<Rightarrow> bool" where
  enter_scan:
    "card (executed_tasks s) < length (st_tasks s) \<Longrightarrow>
     step (AtLoopHead s) (AtScan (map fst (st_tasks s)) (s\<lparr>progress_made := False\<rparr>))"
| leave_loop:
    "\<not> card (executed_tasks s) < length (st_tasks s) \<Longrightarrow>
     step (AtLoopHead s) (AtExit (Inr (collect_results (st_tasks s))) s)"
| scan_end_progress:
    "progress_made s \<Longrightarrow> step (AtScan [] s) (AtLoopHead s)"
| scan_end_stuck:
    "\<not> progress_made s \<Longrightarrow> step (AtScan [] s) (AtExit (Inl (CannotExecute (remaining s))) s)"
| skip_terminal:
    "map_of (st_tasks s) n = Some t \<Longrightarrow> terminal (status t) \<Longrightarrow>
     step (AtScan (n # ns) s) (AtScan ns s)"
| skip_waiting:
    "map_of (st_tasks s) n = Some t \<Longrightarrow> \<not> terminal (status t) \<Longrightarrow>
     \<not> deps_met t (executed_tasks s) \<Longrightarrow>
     step (AtScan (n # ns) s) (AtScan ns s)"
| start_task:
    "map_of (st_tasks s) n = Some t \<Longrightarrow> \<not> terminal (status t) \<Longrightarrow>
     deps_met t (executed_tasks s) \<Longrightarrow>
     step (AtScan (n # ns) s) (AtCall n (t\<lparr>status := RUNNING\<rparr>) ns (begin_task n t s))"
| end_task:
    "step (AtCall n t ns s) (AtScan ns (finish_task n t s))"

lemma visit_keys: "map fst (st_tasks (visit n s)) = map fst (st_tasks s)"
proof (cases n s rule: visit_cases)
  case skip
  then show ?thesis by simp
next
  case (run t t')
  from map_of_SomeD[OF run(1)] have "n \<in> set (map fst (st_tasks s))" by force
  then show ?thesis by (simp only: run(5) update_keys if_True)
qed

lemma steps_visit:
  assumes "n \<in> set (map fst (st_tasks s))"
  shows "rtranclp step (AtScan (n # ns) s) (AtScan ns (visit n s))"
proof -
  from key_lookup[OF assms] obtain t where t: "map_of (st_tasks s) n = Some t" by blast
  show ?thesis
  proof (cases "terminal (status t)")
    case True
    with t have "visit n s = s" by (simp add: visit_def)
    moreover from t True have "step (AtScan (n # ns) s) (AtScan ns s)" by (rule skip_terminal)
    ultimately show ?thesis by auto
  next
    case open_task: False
    show ?thesis
    proof (cases "deps_met t (executed_tasks s)")
      case False
      with t open_task have "visit n s = s" by (simp add: visit_def)
      moreover from t open_task False have "step (AtScan (n # ns) s) (AtScan ns s)"
        by (rule skip_waiting)
      ultimately show ?thesis by auto
    next
      case True
      with t open_task
      have v: "visit n s = finish_task n (t\<lparr>status := RUNNING\<rparr>) (begin_task n t s)"
        by (simp add: visit_def)
      from t open_task True
      have "step (AtScan (n # ns) s) (AtCall n (t\<lparr>status := RUNNING\<rparr>) ns (begin_task n t s))"
        by (rule start_task)
      moreover have "step (AtCall n (t\<lparr>status := RUNNING\<rparr>) ns (begin_task n t s))
                      (AtScan ns (finish_task n (t\<lparr>status := RUNNING\<rparr>) (begin_task n t s)))"
        by (rule end_task)
      ultimately show ?thesis unfolding v by auto
    qed
  qed
qed

lemma steps_scan:
  "set ns \<subseteq> set (map fst (st_tasks s)) \<Longrightarrow>
   rtranclp step (AtScan ns s) (AtScan [] (fold visit ns s))"
proof (induction ns arbitrary: s)
  case Nil
  then show ?case by simp
next
  case (Cons n ns)
  then have n: "n \<in> set (map fst (st_tasks s))" by simp
  have "set ns \<subseteq> set (map fst (st_tasks (visit n s)))"
    using Cons.prems by (simp add: visit_keys)
  from Cons.IH[OF this] steps_visit[OF n, of ns] show ?case by simp
qed

text \<open>The transition system ends where the function \<open>run_loop\<close> says.\<close>

lemma steps_run_loop:
  "rtranclp step (AtLoopHead s) (AtExit (fst (run_loop s)) (snd (run_loop s)))"
proof (induction s rule: run_loop.induct)
  case (1 s)
  show ?case
  proof (cases "card (executed_tasks s) < length (st_tasks s)")
    case False
    then have "run_loop s = (Inr (collect_results (st_tasks s)), s)"
      by (subst run_loop.simps) simp
    moreover from False have "step (AtLoopHead s) (AtExit (Inr (collect_results (st_tasks s))) s)"
      by (rule leave_loop)
    ultimately show ?thesis by auto
  next
    case True
    let ?s0 = "s\<lparr>progress_made := False\<rparr>"
    let ?s' = "scan_tasks ?s0"
    from True have a: "step (AtLoopHead s) (AtScan (map fst (st_tasks s)) ?s0)"
      by (rule enter_scan)
    have b: "rtranclp step (AtScan (map fst (st_tasks s)) ?s0) (AtScan [] ?s')"
      using steps_scan[of "map fst (st_tasks s)" ?s0] by (simp add: scan_tasks_def)
    show ?thesis
    proof (cases "progress_made ?s'")
      case False
      then have "run_loop s = (Inl (CannotExecute (remaining ?s')), ?s')"
        using True by (subst run_loop.simps) (simp add: Let_def)
      moreover from False have "step (AtScan [] ?s') (AtExit (Inl (CannotExecute (remaining ?s'))) ?s')"
        by (rule scan_end_stuck)
      ultimately show ?thesis using a b by (auto intro: converse_rtranclp_into_rtranclp rtranclp.rtrancl_into_rtrancl)
    next
      case prog: True
      then have rl: "run_loop s = run_loop ?s'"
        using True by (subst run_loop.simps) (simp add: Let_def)
      from prog have c: "step (AtScan [] ?s') (AtLoopHead ?s')" by (rule scan_end_progress)
      from "1.IH"[OF True refl] prog
      have d: "rtranclp step (AtLoopHead ?s') (AtExit (fst (run_loop ?s')) (snd (run_loop ?s')))"
        by simp
      have e: "rtranclp step (AtLoopHead s) (AtLoopHead ?s')"
        using a b c by (auto intro: converse_rtranclp_into_rtranclp rtranclp.rtrancl_into_rtrancl)
      show ?thesis unfolding rl by (rule rtranclp_trans[OF e d])
    qed
  qed
qed

text \<open>
  A name is resolved in a state when it is in \<^verbatim>\<open>executed_tasks\<close> and its task is completed
  or failed. \<open>deps_resolved\<close>: every dependency of every running, completed or failed task
  is resolved.
\<close>

definition resolved_in :: "run_state \<Rightarrow> string \<Rightarrow> bool" where
  "resolved_in s d \<longleftrightarrow>
     d \<in> executed_tasks s \<and>
     (\<exists>u. map_of (st_tasks s) d = Some u \<and> (status u = COMPLETED \<or> status u = FAILED))"

definition deps_resolved :: "run_state \<Rightarrow> bool" where
  "deps_resolved s \<longleftrightarrow>
     (\<forall>n t. map_of (st_tasks s) n = Some t \<and>
             (status t = RUNNING \<or> status t = COMPLETED \<or> status t = FAILED) \<longrightarrow>
             (\<forall>d\<in>set (dependencies t). resolved_in s d))"

definition executed_resolved :: "run_state \<Rightarrow> bool" where
  "executed_resolved s \<longleftrightarrow> (\<forall>d\<in>executed_tasks s. resolved_in s d)"

fun call_ok :: "control \<Rightarrow> bool" where
  "call_ok (AtCall n t ns s) \<longleftrightarrow>
     map_of (st_tasks s) n = Some t \<and> status t = RUNNING \<and> n \<notin> executed_tasks s \<and>
     (\<forall>d\<in>set (dependencies t). resolved_in s d)"
| "call_ok k \<longleftrightarrow> True"

lemma resolved_in_flag [simp]: "resolved_in (s\<lparr>progress_made := b\<rparr>) d = resolved_in s d"
  by (simp add: resolved_in_def)

lemma resolved_in_begin:
  assumes "resolved_in s d" and "map_of (st_tasks s) n = Some t" and "\<not> terminal (status t)"
  shows "resolved_in (begin_task n t s) d"
proof -
  from assms have "d \<noteq> n" by (auto simp: resolved_in_def terminal_def)
  with assms(1) show ?thesis
    by (simp add: resolved_in_def begin_task_def set_task_def update_conv')
qed

lemma finish_task_shape:
  "\<exists>t'. st_tasks (finish_task n t s) = AList.update n t' (st_tasks s) \<and>
        executed_tasks (finish_task n t s) = insert n (executed_tasks s) \<and>
        dependencies t' = dependencies t \<and> (status t' = COMPLETED \<or> status t' = FAILED)"
  by (cases "action t (st_ctx s)"; cases "fst (action t (st_ctx s))")
     (auto simp: finish_task_def set_task_def)

lemma resolved_in_finish:
  assumes "resolved_in s d" and "n \<notin> executed_tasks s"
  shows "resolved_in (finish_task n t s) d"
proof -
  from assms have ne: "d \<noteq> n" by (auto simp: resolved_in_def)
  from finish_task_shape[of n t s] obtain t' where
    "st_tasks (finish_task n t s) = AList.update n t' (st_tasks s)"
    "executed_tasks (finish_task n t s) = insert n (executed_tasks s)" by blast
  with assms(1) ne show ?thesis by (simp add: resolved_in_def update_conv')
qed

lemma step_executed_resolved:
  assumes "step k k'" and "executed_resolved (state_of k)" and "call_ok k"
  shows "executed_resolved (state_of k') \<and> call_ok k'"
  using assms
proof (induction rule: step.induct)
  case (start_task s n t ns)
  have keep: "resolved_in (begin_task n t s) d" if "resolved_in s d" for d
    using that start_task.hyps(1,2) by (rule resolved_in_begin)
  have ex: "executed_tasks (begin_task n t s) = executed_tasks s"
    by (simp add: begin_task_def set_task_def)
  have new: "n \<notin> executed_tasks s"
    using start_task.prems(1) start_task.hyps(1,2)
    by (auto simp: executed_resolved_def resolved_in_def terminal_def)
  have deps: "\<forall>d\<in>set (dependencies t). resolved_in s d"
    using start_task.hyps(3) start_task.prems(1)
    by (auto simp: deps_met_def list_all_iff executed_resolved_def)
  have "map_of (st_tasks (begin_task n t s)) n = Some (t\<lparr>status := RUNNING\<rparr>)"
    by (simp add: begin_task_def set_task_def update_conv')
  with keep ex new deps start_task.prems(1) show ?case
    by (auto simp: executed_resolved_def)
next
  case (end_task n t ns s)
  from end_task.prems(2) have new: "n \<notin> executed_tasks s"
    and look: "map_of (st_tasks s) n = Some t" by simp_all
  have keep: "resolved_in (finish_task n t s) d" if "resolved_in s d" for d
    using that new by (rule resolved_in_finish)
  from finish_task_shape[of n t s] obtain t' where t':
    "st_tasks (finish_task n t s) = AList.update n t' (st_tasks s)"
    "executed_tasks (finish_task n t s) = insert n (executed_tasks s)"
    "status t' = COMPLETED \<or> status t' = FAILED" by blast
  then have "resolved_in (finish_task n t s) n"
    by (simp add: resolved_in_def update_conv')
  with keep t'(2) end_task.prems(1) show ?case
    by (auto simp: executed_resolved_def)
qed (simp_all add: executed_resolved_def)

lemma step_deps_resolved:
  assumes "step k k'" and "executed_resolved (state_of k)" and "call_ok k"
    and "deps_resolved (state_of k)"
  shows "deps_resolved (state_of k')"
  using assms
proof (induction rule: step.induct)
  case (start_task s n t ns)
  have keep: "resolved_in (begin_task n t s) d" if "resolved_in s d" for d
    using that start_task.hyps(1,2) by (rule resolved_in_begin)
  have deps: "\<forall>d\<in>set (dependencies t). resolved_in s d"
    using start_task.hyps(3) start_task.prems(1)
    by (auto simp: deps_met_def list_all_iff executed_resolved_def)
  have mo: "map_of (st_tasks (begin_task n t s)) = (map_of (st_tasks s))(n \<mapsto> t\<lparr>status := RUNNING\<rparr>)"
    by (simp add: begin_task_def set_task_def update_conv')
  show ?case
    unfolding state_of.simps deps_resolved_def
  proof (intro allI impI ballI, elim conjE)
    fix k u d
    assume ku: "map_of (st_tasks (begin_task n t s)) k = Some u"
      and st: "status u = RUNNING \<or> status u = COMPLETED \<or> status u = FAILED"
      and d: "d \<in> set (dependencies u)"
    show "resolved_in (begin_task n t s) d"
    proof (cases "k = n")
      case True
      with ku mo have "dependencies u = dependencies t" by auto
      with d deps keep show ?thesis by auto
    next
      case False
      with ku mo have "map_of (st_tasks s) k = Some u" by auto
      with st d start_task.prems(3) have "resolved_in s d"
        by (auto simp: deps_resolved_def)
      then show ?thesis by (rule keep)
    qed
  qed
next
  case (end_task n t ns s)
  from end_task.prems(2) have new: "n \<notin> executed_tasks s"
    and look: "map_of (st_tasks s) n = Some t"
    and deps: "\<forall>d\<in>set (dependencies t). resolved_in s d" by simp_all
  have keep: "resolved_in (finish_task n t s) d" if "resolved_in s d" for d
    using that new by (rule resolved_in_finish)
  from finish_task_shape[of n t s] obtain t' where t':
    "st_tasks (finish_task n t s) = AList.update n t' (st_tasks s)"
    "dependencies t' = dependencies t" by blast
  then have mo: "map_of (st_tasks (finish_task n t s)) = (map_of (st_tasks s))(n \<mapsto> t')"
    by (simp add: update_conv')
  show ?case
    unfolding state_of.simps deps_resolved_def
  proof (intro allI impI ballI, elim conjE)
    fix k u d
    assume ku: "map_of (st_tasks (finish_task n t s)) k = Some u"
      and st: "status u = RUNNING \<or> status u = COMPLETED \<or> status u = FAILED"
      and d: "d \<in> set (dependencies u)"
    show "resolved_in (finish_task n t s) d"
    proof (cases "k = n")
      case True
      with ku mo t'(2) have "dependencies u = dependencies t" by auto
      with d deps keep show ?thesis by auto
    next
      case False
      with ku mo have "map_of (st_tasks s) k = Some u" by auto
      with st d end_task.prems(3) have "resolved_in s d"
        by (auto simp: deps_resolved_def)
      then show ?thesis by (rule keep)
    qed
  qed
qed (simp_all add: deps_resolved_def)

lemma reach_executed_resolved:
  assumes "rtranclp step (AtLoopHead (init_state ts c wn)) k"
  shows "executed_resolved (state_of k) \<and> call_ok k"
  using assms
proof (induction rule: rtranclp_induct)
  case base
  show ?case by (simp add: executed_resolved_def init_state_def)
next
  case (step k k')
  then show ?case using step_executed_resolved by blast
qed

lemma reach_deps_resolved:
  assumes "rtranclp step (AtLoopHead (init_state ts c wn)) k" and "all_pending ts"
  shows "deps_resolved (state_of k)"
  using assms(1)
proof (induction rule: rtranclp_induct)
  case base
  have "status t = PENDING" if "map_of ts n = Some t" for n t
    using all_pending_open[OF assms(2) that] .
  then show ?case by (auto simp: deps_resolved_def init_state_def)
next
  case (step k k')
  from reach_executed_resolved[OF step.hyps(1)] step.hyps(2) step.IH
  show ?case using step_deps_resolved by blast
qed

text \<open>
  Claim C8. In every state the loop can reach from the start of a call: at the point where
  an action is about to be called, the task is the one stored under its key, it is
  running, and every name in its dependencies is in \<^verbatim>\<open>executed_tasks\<close> with a completed or
  failed task; and, when all tasks started pending, every running, completed or failed
  task of the state has all its dependencies resolved in that way. So no status leaves
  pending before the dependencies are resolved.
\<close>

theorem no_task_runs_before_dependencies:
  assumes reach: "rtranclp step (AtLoopHead (init_state ts c wn)) k"
  shows "(\<forall>n t ns s. k = AtCall n t ns s \<longrightarrow>
            map_of (st_tasks s) n = Some t \<and> status t = RUNNING \<and>
            (\<forall>d\<in>set (dependencies t). resolved_in s d))
       \<and> (all_pending ts \<longrightarrow> deps_resolved (state_of k))"
proof (rule conjI)
  show "\<forall>n t ns s. k = AtCall n t ns s \<longrightarrow>
            map_of (st_tasks s) n = Some t \<and> status t = RUNNING \<and>
            (\<forall>d\<in>set (dependencies t). resolved_in s d)"
    using reach_executed_resolved[OF reach] by auto
  show "all_pending ts \<longrightarrow> deps_resolved (state_of k)"
    using reach by (auto intro: reach_deps_resolved)
qed

text \<open>
  The order workflow at the point where the action of \<^verbatim>\<open>payment\<close> is about to be called,
  after \<^verbatim>\<open>validate\<close> ran.
\<close>

definition order_validate :: Task where
  "order_validate = new_task ''validate'' (\<lambda>c. (Returned (PyDict [(''valid'', PyBool True)]), c)) []"

definition order_payment :: Task where
  "order_payment =
     new_task ''payment'' (\<lambda>c. (Returned (PyDict [(''payment_id'', PyStr ''pay_123'')]), c))
       [''validate'']"

definition order_at_payment :: run_state where
  "order_at_payment =
     begin_task ''payment'' order_payment
       (finish_task ''validate'' (order_validate\<lparr>status := RUNNING\<rparr>)
          (begin_task ''validate'' order_validate
             ((init_state (tasks order_wf) None ''order'')\<lparr>progress_made := False\<rparr>)))"

theorem no_task_runs_before_dependencies_witness:
  "all_pending (tasks order_wf)
   \<and> rtranclp step (AtLoopHead (init_state (tasks order_wf) None ''order''))
       (AtCall ''payment'' (order_payment\<lparr>status := RUNNING\<rparr>) [''fulfill''] order_at_payment)
   \<and> map_of (st_tasks order_at_payment) ''payment'' = Some (order_payment\<lparr>status := RUNNING\<rparr>)
   \<and> resolved_in order_at_payment ''validate''
   \<and> deps_resolved order_at_payment"
proof -
  let ?s0 = "init_state (tasks order_wf) None ''order''"
  let ?s1 = "?s0\<lparr>progress_made := False\<rparr>"
  let ?sv = "begin_task ''validate'' order_validate ?s1"
  let ?sv' = "finish_task ''validate'' (order_validate\<lparr>status := RUNNING\<rparr>) ?sv"
  let ?k = "AtCall ''payment'' (order_payment\<lparr>status := RUNNING\<rparr>) [''fulfill''] order_at_payment"
  have h1: "all_pending (tasks order_wf)"
    by (simp add: order_wf_tasks all_pending_def new_task_def)
  have a: "step (AtLoopHead ?s0) (AtScan [''validate'', ''payment'', ''fulfill''] ?s1)"
    using enter_scan[of ?s0] by (simp add: init_state_def order_wf_tasks)
  have b: "step (AtScan [''validate'', ''payment'', ''fulfill''] ?s1)
             (AtCall ''validate'' (order_validate\<lparr>status := RUNNING\<rparr>) [''payment'', ''fulfill''] ?sv)"
    by (rule start_task)
       (simp_all add: init_state_def order_wf_tasks order_validate_def new_task_def terminal_def
          deps_met_def)
  have c: "step (AtCall ''validate'' (order_validate\<lparr>status := RUNNING\<rparr>) [''payment'', ''fulfill''] ?sv)
             (AtScan [''payment'', ''fulfill''] ?sv')"
    by (rule end_task)
  have d: "step (AtScan [''payment'', ''fulfill''] ?sv') ?k"
    unfolding order_at_payment_def
    by (rule start_task)
       (simp_all add: init_state_def order_wf_tasks order_validate_def order_payment_def new_task_def
          terminal_def deps_met_def begin_task_def finish_task_def set_task_def)
  have h2: "rtranclp step (AtLoopHead ?s0) ?k"
    using a b c d by (meson rtranclp.rtrancl_into_rtrancl rtranclp.rtrancl_refl)
  from no_task_runs_before_dependencies[OF h2] h1
  have e: "map_of (st_tasks order_at_payment) ''payment'' = Some (order_payment\<lparr>status := RUNNING\<rparr>)"
    and f: "\<forall>d\<in>set (dependencies (order_payment\<lparr>status := RUNNING\<rparr>)). resolved_in order_at_payment d"
    and g: "deps_resolved order_at_payment"
    by auto
  from f have f': "resolved_in order_at_payment ''validate''"
    by (simp add: order_payment_def new_task_def)
  show ?thesis by (intro conjI h1 h2 e f' g)
qed

section \<open>Actions that raise\<close>

subsection \<open>The run is one path of the transition system\<close>

text \<open>
  Every control point has at most one successor, so the states reachable from the start of
  a call form one path, which ends where \<open>run_loop\<close> ends. Once a task is in
  \<^verbatim>\<open>executed_tasks\<close> its entry is never written again, and the log only grows.
\<close>

lemma step_deterministic: "step k k1 \<Longrightarrow> step k k2 \<Longrightarrow> k1 = k2"
  by (induction arbitrary: k2 rule: step.induct) (auto elim: step.cases)

lemma no_step_from_exit: "\<not> step (AtExit r s) k"
  by (auto elim: step.cases)

lemma reach_continues:
  assumes "rtranclp step a k" and "rtranclp step a (AtExit r sf)"
  shows "rtranclp step k (AtExit r sf)"
  using assms
proof (induction rule: converse_rtranclp_induct)
  case base
  then show ?case by simp
next
  case (step a a')
  from step.prems show ?case
  proof (cases rule: converse_rtranclpE)
    case base
    with step.hyps(1) show ?thesis by (simp add: no_step_from_exit)
  next
    case (step b)
    with step_deterministic[OF \<open>step a a'\<close> step(1)] have "rtranclp step a' (AtExit r sf)" by simp
    then show ?thesis by (rule step.IH)
  qed
qed

lemma step_log_mono: "step k k' \<Longrightarrow> set (st_log (state_of k)) \<subseteq> set (st_log (state_of k'))"
  by (induction rule: step.induct)
     (auto simp: begin_task_def finish_task_def set_task_def split: prod.splits outcome.splits)

lemma steps_log_mono:
  "rtranclp step k k' \<Longrightarrow> set (st_log (state_of k)) \<subseteq> set (st_log (state_of k'))"
  by (induction rule: rtranclp_induct) (auto dest: step_log_mono)

lemma step_keeps_executed:
  assumes "step k k'" and "executed_resolved (state_of k)" and "call_ok k"
    and "n \<in> executed_tasks (state_of k)"
  shows "n \<in> executed_tasks (state_of k') \<and>
         map_of (st_tasks (state_of k')) n = map_of (st_tasks (state_of k)) n"
  using assms
proof (induction rule: step.induct)
  case (start_task s n' t ns)
  from start_task.prems(1,3) have "resolved_in s n" by (auto simp: executed_resolved_def)
  with start_task.hyps(1,2) have "n \<noteq> n'" by (auto simp: resolved_in_def terminal_def)
  with start_task.prems(3) show ?case
    by (simp add: begin_task_def set_task_def update_conv')
next
  case (end_task n' t ns s)
  from end_task.prems(2,3) have ne: "n \<noteq> n'" by auto
  from finish_task_shape[of n' t s] obtain t' where
    "st_tasks (finish_task n' t s) = AList.update n' t' (st_tasks s)"
    "executed_tasks (finish_task n' t s) = insert n' (executed_tasks s)" by blast
  with ne end_task.prems(3) show ?case by (simp add: update_conv')
qed simp_all

lemma steps_keep_executed:
  assumes reach: "rtranclp step (AtLoopHead (init_state ts c wn)) k"
    and more: "rtranclp step k k'"
    and n: "n \<in> executed_tasks (state_of k)"
  shows "n \<in> executed_tasks (state_of k') \<and>
         map_of (st_tasks (state_of k')) n = map_of (st_tasks (state_of k)) n"
  using more
proof (induction rule: rtranclp_induct)
  case base
  with n show ?case by simp
next
  case (step k1 k2)
  from reach step.hyps(1) have "rtranclp step (AtLoopHead (init_state ts c wn)) k1"
    by (rule rtranclp_trans)
  from reach_executed_resolved[OF this] step.hyps(2) step.IH
  show ?case using step_keeps_executed[of k1 k2 n] by auto
qed

subsection \<open>What is called, and how often\<close>

text \<open>
  A task that is not yet in \<^verbatim>\<open>executed_tasks\<close> is still the object that was registered;
  at the call of line 127 it is that object with its status set to running (line 124).
  A start event in the log (line 125) means the run went through the call of that task.
\<close>

definition same_outside :: "(string \<times> Task) list \<Rightarrow> string set \<Rightarrow> run_state \<Rightarrow> bool" where
  "same_outside ts0 X s \<longleftrightarrow> (\<forall>k. k \<notin> X \<longrightarrow> map_of (st_tasks s) k = map_of ts0 k)"

fun untouched :: "(string \<times> Task) list \<Rightarrow> control \<Rightarrow> bool" where
  "untouched ts0 (AtCall n t ns s) \<longleftrightarrow>
     (\<exists>t0. map_of ts0 n = Some t0 \<and> t = t0\<lparr>status := RUNNING\<rparr>) \<and>
     same_outside ts0 (insert n (executed_tasks s)) s"
| "untouched ts0 (AtLoopHead s) \<longleftrightarrow> same_outside ts0 (executed_tasks s) s"
| "untouched ts0 (AtScan ns s) \<longleftrightarrow> same_outside ts0 (executed_tasks s) s"
| "untouched ts0 (AtExit r s) \<longleftrightarrow> same_outside ts0 (executed_tasks s) s"

lemma step_untouched:
  assumes "step k k'" and "executed_resolved (state_of k)" and "untouched ts0 k"
  shows "untouched ts0 k'"
  using assms
proof (induction rule: step.induct)
  case (start_task s n t ns)
  have new: "n \<notin> executed_tasks s"
    using start_task.prems(1) start_task.hyps(1,2)
    by (auto simp: executed_resolved_def resolved_in_def terminal_def)
  with start_task.prems(2) start_task.hyps(1) have "map_of ts0 n = Some t"
    by (simp add: same_outside_def)
  moreover have "same_outside ts0 (insert n (executed_tasks (begin_task n t s))) (begin_task n t s)"
    using start_task.prems(2)
    by (simp add: same_outside_def begin_task_def set_task_def update_conv')
  ultimately show ?case by simp
next
  case (end_task n t ns s)
  from finish_task_shape[of n t s] obtain t' where
    "st_tasks (finish_task n t s) = AList.update n t' (st_tasks s)"
    "executed_tasks (finish_task n t s) = insert n (executed_tasks s)" by blast
  with end_task.prems(2) show ?case by (simp add: same_outside_def update_conv')
qed (simp_all add: same_outside_def)

lemma reach_untouched:
  assumes "rtranclp step (AtLoopHead (init_state ts c wn)) k"
  shows "untouched ts k"
  using assms
proof (induction rule: rtranclp_induct)
  case base
  show ?case by (simp add: same_outside_def init_state_def)
next
  case (step k k')
  from reach_executed_resolved[OF step.hyps(1)] step.hyps(2) step.IH
  show ?case using step_untouched by blast
qed

lemma step_new_start:
  assumes "step k k'" and "LogExecutingTask n \<in> set (st_log (state_of k'))"
  shows "LogExecutingTask n \<in> set (st_log (state_of k)) \<or> (\<exists>t ns s. k' = AtCall n t ns s)"
  using assms
  by (induction rule: step.induct)
     (auto simp: begin_task_def finish_task_def set_task_def split: prod.splits outcome.splits)

lemma started_had_call:
  assumes "rtranclp step (AtLoopHead (init_state ts c wn)) k"
    and "LogExecutingTask n \<in> set (st_log (state_of k))"
  shows "\<exists>t ns s. rtranclp step (AtLoopHead (init_state ts c wn)) (AtCall n t ns s)"
  using assms
proof (induction rule: rtranclp_induct)
  case base
  then show ?case by (simp add: init_state_def)
next
  case (step k k')
  from step_new_start[OF step.hyps(2) step.prems] show ?case
  proof
    assume "LogExecutingTask n \<in> set (st_log (state_of k))"
    then show ?thesis by (rule step.IH)
  next
    assume "\<exists>t ns s. k' = AtCall n t ns s"
    then obtain t ns s where "k' = AtCall n t ns s" by blast
    with step.hyps(1,2) have "rtranclp step (AtLoopHead (init_state ts c wn)) (AtCall n t ns s)"
      by auto
    then show ?thesis by blast
  qed
qed

lemma finish_task_raised:
  assumes "fst (action t (st_ctx s)) = Raised m"
  shows "finish_task n t s =
           s\<lparr>st_tasks := AList.update n (t\<lparr>status := FAILED, error := Some m\<rparr>) (st_tasks s),
             executed_tasks := insert n (executed_tasks s),
             st_ctx := snd (action t (st_ctx s)),
             progress_made := True,
             st_log := st_log s @ [LogTaskFailed n m]\<rparr>"
  using assms by (cases "action t (st_ctx s)") (simp add: finish_task_def set_task_def)

lemma reach_linear:
  assumes "rtranclp step a k" and "rtranclp step a k'"
  shows "rtranclp step k k' \<or> rtranclp step k' k"
  using assms
proof (induction rule: converse_rtranclp_induct)
  case base
  then show ?case by simp
next
  case (step a a')
  from step.prems show ?case
  proof (cases rule: converse_rtranclpE)
    case base
    with step.hyps show ?thesis by (auto intro: converse_rtranclp_into_rtranclp)
  next
    case (step b)
    with step_deterministic[OF \<open>step a a'\<close> step(1)] have "rtranclp step a' k'" by simp
    then show ?thesis by (rule step.IH)
  qed
qed

lemma call_not_again:
  assumes reach: "rtranclp step (AtLoopHead (init_state ts c wn)) (AtCall n t ns s)"
    and more: "rtranclp step (AtCall n t ns s) (AtCall n t' ns' s')"
  shows "AtCall n t' ns' s' = AtCall n t ns s"
proof (rule ccontr)
  assume ne: "AtCall n t' ns' s' \<noteq> AtCall n t ns s"
  let ?k1 = "AtScan ns (finish_task n t s)"
  from more ne obtain b where b: "step (AtCall n t ns s) b" "rtranclp step b (AtCall n t' ns' s')"
    by (auto elim: converse_rtranclpE)
  have "step (AtCall n t ns s) ?k1" by (rule end_task)
  with b have rest: "rtranclp step ?k1 (AtCall n t' ns' s')"
    using step_deterministic by blast
  have r1: "rtranclp step (AtLoopHead (init_state ts c wn)) ?k1"
    using reach end_task by (rule rtranclp.rtrancl_into_rtrancl)
  from finish_task_shape[of n t s] have "n \<in> executed_tasks (state_of ?k1)" by auto
  from steps_keep_executed[OF r1 rest this] have "n \<in> executed_tasks s'" by simp
  moreover from reach_executed_resolved[OF rtranclp_trans[OF r1 rest]]
  have "n \<notin> executed_tasks s'" by simp
  ultimately show False by simp
qed

lemma call_unique:
  assumes a: "rtranclp step (AtLoopHead (init_state ts c wn)) (AtCall n t ns s)"
    and b: "rtranclp step (AtLoopHead (init_state ts c wn)) (AtCall n t' ns' s')"
  shows "AtCall n t' ns' s' = AtCall n t ns s"
  using reach_linear[OF a b] call_not_again[OF a] call_not_again[OF b] by metis

lemma raised_at_call:
  assumes reach: "rtranclp step (AtLoopHead (init_state ts c wn)) (AtCall n t ns s)"
    and raised: "fst (action t (st_ctx s)) = Raised m"
  shows "\<exists>t0. map_of ts n = Some t0 \<and> t = t0\<lparr>status := RUNNING\<rparr>"
    and "map_of (st_tasks (finish_task n t s)) n = Some (t\<lparr>status := FAILED, error := Some m\<rparr>)"
    and "n \<in> executed_tasks (finish_task n t s)"
    and "progress_made (finish_task n t s)"
    and "st_log (finish_task n t s) = st_log s @ [LogTaskFailed n m]"
    and "map_of (st_tasks (snd (run_loop (init_state ts c wn)))) n =
           Some (t\<lparr>status := FAILED, error := Some m\<rparr>)"
    and "n \<in> executed_tasks (snd (run_loop (init_state ts c wn)))"
    and "LogTaskFailed n m \<in> set (st_log (snd (run_loop (init_state ts c wn))))"
proof -
  let ?i = "AtLoopHead (init_state ts c wn)"
  let ?f = "finish_task n t s"
  let ?k1 = "AtScan ns ?f"
  let ?sf = "snd (run_loop (init_state ts c wn))"
  let ?x = "AtExit (fst (run_loop (init_state ts c wn))) ?sf"
  from reach_untouched[OF reach]
  show "\<exists>t0. map_of ts n = Some t0 \<and> t = t0\<lparr>status := RUNNING\<rparr>" by simp
  note shape = finish_task_raised[OF raised, of n]
  show now: "map_of (st_tasks ?f) n = Some (t\<lparr>status := FAILED, error := Some m\<rparr>)"
    unfolding shape by (simp add: update_conv')
  show ex: "n \<in> executed_tasks ?f" unfolding shape by simp
  show "progress_made ?f" unfolding shape by simp
  show lg: "st_log ?f = st_log s @ [LogTaskFailed n m]" unfolding shape by simp
  have r1: "rtranclp step ?i ?k1"
    using reach end_task by (rule rtranclp.rtrancl_into_rtrancl)
  have rest: "rtranclp step ?k1 ?x"
    using r1 steps_run_loop by (rule reach_continues)
  from ex have "n \<in> executed_tasks (state_of ?k1)" by simp
  from steps_keep_executed[OF r1 rest this] now
  show "map_of (st_tasks ?sf) n = Some (t\<lparr>status := FAILED, error := Some m\<rparr>)"
    and "n \<in> executed_tasks ?sf" by simp_all
  from steps_log_mono[OF rest] lg
  show "LogTaskFailed n m \<in> set (st_log ?sf)" by auto
qed

lemma started_call_point:
  assumes "LogExecutingTask n \<in> set (st_log (snd (run_loop (init_state ts c wn))))"
  shows "\<exists>t0 ns s. map_of ts n = Some t0 \<and>
           rtranclp step (AtLoopHead (init_state ts c wn)) (AtCall n (t0\<lparr>status := RUNNING\<rparr>) ns s)"
proof -
  have "rtranclp step (AtLoopHead (init_state ts c wn))
          (AtExit (fst (run_loop (init_state ts c wn))) (snd (run_loop (init_state ts c wn))))"
    by (rule steps_run_loop)
  from started_had_call[OF this, of n] assms obtain t ns s where
    r: "rtranclp step (AtLoopHead (init_state ts c wn)) (AtCall n t ns s)" by auto
  from reach_untouched[OF r] obtain t0 where "map_of ts n = Some t0" "t = t0\<lparr>status := RUNNING\<rparr>"
    by auto
  with r show ?thesis by blast
qed

lemma finish_task_returned:
  assumes "fst (action t (st_ctx s)) = Returned v"
  shows "finish_task n t s =
           s\<lparr>st_tasks := AList.update n (t\<lparr>result := v, status := COMPLETED\<rparr>) (st_tasks s),
             executed_tasks := insert n (executed_tasks s),
             st_ctx := snd (action t (st_ctx s)),
             progress_made := True\<rparr>"
  using assms by (cases "action t (st_ctx s)") (simp add: finish_task_def set_task_def)

lemma outcome_at_call:
  assumes reach: "rtranclp step (AtLoopHead (init_state ts c wn)) (AtCall n t ns s)"
  shows "map_of (st_tasks (snd (run_loop (init_state ts c wn)))) n =
           Some (case fst (action t (st_ctx s)) of
                   Returned v \<Rightarrow> t\<lparr>result := v, status := COMPLETED\<rparr>
                 | Raised m \<Rightarrow> t\<lparr>status := FAILED, error := Some m\<rparr>)"
proof -
  let ?i = "AtLoopHead (init_state ts c wn)"
  let ?f = "finish_task n t s"
  let ?k1 = "AtScan ns ?f"
  let ?sf = "snd (run_loop (init_state ts c wn))"
  let ?x = "AtExit (fst (run_loop (init_state ts c wn))) ?sf"
  have now: "map_of (st_tasks ?f) n = Some (case fst (action t (st_ctx s)) of
                   Returned v \<Rightarrow> t\<lparr>result := v, status := COMPLETED\<rparr>
                 | Raised m \<Rightarrow> t\<lparr>status := FAILED, error := Some m\<rparr>)"
  proof (cases "fst (action t (st_ctx s))")
    case (Returned v)
    show ?thesis unfolding finish_task_returned[OF Returned, of n] Returned
      by (simp add: update_conv')
  next
    case (Raised m)
    show ?thesis unfolding finish_task_raised[OF Raised, of n] Raised
      by (simp add: update_conv')
  qed
  have r1: "rtranclp step ?i ?k1"
    using reach end_task by (rule rtranclp.rtrancl_into_rtrancl)
  have rest: "rtranclp step ?k1 ?x"
    using r1 steps_run_loop by (rule reach_continues)
  from finish_task_shape[of n t s] have "n \<in> executed_tasks (state_of ?k1)" by auto
  from steps_keep_executed[OF r1 rest this] now show ?thesis by simp
qed

subsection \<open>A workflow whose failure depends on the context\<close>

text \<open>
  \<^verbatim>\<open>reserve\<close> writes \<^verbatim>\<open>in_stock = False\<close> into the shared context; \<^verbatim>\<open>charge\<close> raises when it
  finds that entry and returns otherwise, so on the empty context it would return;
  \<^verbatim>\<open>notify\<close> depends on \<^verbatim>\<open>charge\<close>.
\<close>

definition stock_wf :: Workflow where
  "stock_wf =
     add_task
       (add_task
          (add_task (new_workflow ''stock'' '''') ''reserve''
             (\<lambda>c. (Returned (PyBool False), AList.update ''in_stock'' (PyBool False) c)) None)
          ''charge''
          (\<lambda>c. if map_of c ''in_stock'' = Some (PyBool False) then (Raised ''out of stock'', c)
                else (Returned (PyStr ''paid''), c))
          (Some [''reserve'']))
       ''notify'' (\<lambda>c. (Returned (PyStr ''sent''), c)) (Some [''charge''])"

definition stock_reserve :: Task where
  "stock_reserve =
     new_task ''reserve''
       (\<lambda>c. (Returned (PyBool False), AList.update ''in_stock'' (PyBool False) c)) []"

definition stock_charge :: Task where
  "stock_charge =
     new_task ''charge''
       (\<lambda>c. if map_of c ''in_stock'' = Some (PyBool False) then (Raised ''out of stock'', c)
             else (Returned (PyStr ''paid''), c))
       [''reserve'']"

definition stock_notify :: Task where
  "stock_notify = new_task ''notify'' (\<lambda>c. (Returned (PyStr ''sent''), c)) [''charge'']"

lemma stock_wf_tasks:
  "tasks stock_wf =
     [(''reserve'', stock_reserve), (''charge'', stock_charge), (''notify'', stock_notify)]"
  by (simp add: stock_wf_def stock_reserve_def stock_charge_def stock_notify_def add_task_def
      new_workflow_def)

definition stock_at_charge :: run_state where
  "stock_at_charge =
     begin_task ''charge'' stock_charge
       (finish_task ''reserve'' (stock_reserve\<lparr>status := RUNNING\<rparr>)
          (begin_task ''reserve'' stock_reserve
             ((init_state (tasks stock_wf) None ''stock'')\<lparr>progress_made := False\<rparr>)))"

text \<open>
  Claim C3. For every registered workflow, whatever its graph: at every point the call
  reaches where the action of a task is invoked (line 127) and the action raises on the
  context it is given there, the task is the registered one, this is its only call, the
  handler of lines 132-137 runs and the scan goes on with the next key: the task is stored
  failed with the raised message as its error, it is added to \<^verbatim>\<open>executed_tasks\<close> (so it
  counts as resolved for its dependents), progress is recorded and the failure is logged.
  At the end of the call the engine still holds that task failed with that message, the
  failure event is in the log, a returned report shows the task as failed with the message
  and the result it had, and a deadlock error does not list it. The call ends where the
  transition system ends, with a report or the deadlock error of line 142: the exception
  of an action never ends it. Every task the log shows as started went through such a call
  point, and every logged failure is a failed task with that message. For a workflow that
  can complete (unique keys, all tasks pending, every dependency defined, no cycle) the
  report is returned whatever the actions do, every task is called (the dependents of a
  failed task as well), and its entry is made from what its action did at that call:
  failed with the message when it raised, completed with the value when it returned;
  nothing limits how many tasks fail.
\<close>

theorem action_failure_recorded:
  assumes reg: "workflows eng wn = Some w"
  shows "(\<forall>n t ns s m.
            rtranclp step (AtLoopHead (init_state (tasks w) c wn)) (AtCall n t ns s) \<and>
            fst (action t (st_ctx s)) = Raised m \<longrightarrow>
              (\<exists>t0. map_of (tasks w) n = Some t0 \<and> t = t0\<lparr>status := RUNNING\<rparr>) \<and>
              (\<forall>t' ns' s'.
                  rtranclp step (AtLoopHead (init_state (tasks w) c wn)) (AtCall n t' ns' s') \<longrightarrow>
                  AtCall n t' ns' s' = AtCall n t ns s) \<and>
              step (AtCall n t ns s) (AtScan ns (finish_task n t s)) \<and>
              map_of (st_tasks (finish_task n t s)) n =
                Some (t\<lparr>status := FAILED, error := Some m\<rparr>) \<and>
              n \<in> executed_tasks (finish_task n t s) \<and>
              progress_made (finish_task n t s) \<and>
              st_log (finish_task n t s) = st_log s @ [LogTaskFailed n m] \<and>
              LogTaskFailed n m \<in> set (snd (snd (execute_workflow eng wn c))) \<and>
              (\<exists>w'. workflows (fst (snd (execute_workflow eng wn c))) wn = Some w' \<and>
                    map_of (tasks w') n = Some (t\<lparr>status := FAILED, error := Some m\<rparr>)) \<and>
              (\<forall>rep. fst (execute_workflow eng wn c) = Inr rep \<longrightarrow>
                    map_of rep n =
                      Some \<lparr>r_status = ''failed'', r_result = result t, r_error = Some m\<rparr>) \<and>
              (\<forall>rem. fst (execute_workflow eng wn c) = Inl (CannotExecute rem) \<longrightarrow>
                    n \<notin> set rem))
       \<and> (\<exists>sf. rtranclp step (AtLoopHead (init_state (tasks w) c wn))
                  (AtExit (fst (execute_workflow eng wn c)) sf) \<and>
                workflows (fst (snd (execute_workflow eng wn c))) wn =
                  Some (w\<lparr>tasks := st_tasks sf\<rparr>))
       \<and> (\<forall>n. LogExecutingTask n \<in> set (snd (snd (execute_workflow eng wn c))) \<longrightarrow>
              (\<exists>t0 ns s. map_of (tasks w) n = Some t0 \<and>
                  rtranclp step (AtLoopHead (init_state (tasks w) c wn))
                    (AtCall n (t0\<lparr>status := RUNNING\<rparr>) ns s)))
       \<and> (\<forall>n m. LogTaskFailed n m \<in> set (snd (snd (execute_workflow eng wn c))) \<longrightarrow>
            (\<exists>w' t. workflows (fst (snd (execute_workflow eng wn c))) wn = Some w' \<and>
                     map_of (tasks w') n = Some t \<and> status t = FAILED \<and> error t = Some m) \<and>
            (\<forall>rep. fst (execute_workflow eng wn c) = Inr rep \<longrightarrow>
                     (\<exists>e. map_of rep n = Some e \<and> r_status e = ''failed'' \<and> r_error e = Some m)))
       \<and> (distinct (map fst (tasks w)) \<and> all_pending (tasks w) \<and> deps_defined (tasks w) \<and>
          acyclic (set (dep_edges (tasks w))) \<longrightarrow>
            (\<exists>rep. fst (execute_workflow eng wn c) = Inr rep \<and>
               (\<forall>(n, t)\<in>set (tasks w).
                   LogExecutingTask n \<in> set (snd (snd (execute_workflow eng wn c))) \<and>
                   (\<exists>ns s.
                       rtranclp step (AtLoopHead (init_state (tasks w) c wn))
                         (AtCall n (t\<lparr>status := RUNNING\<rparr>) ns s) \<and>
                       map_of rep n =
                         Some (case fst (action t (st_ctx s)) of
                                 Returned v \<Rightarrow>
                                   \<lparr>r_status = ''completed'', r_result = v, r_error = error t\<rparr>
                               | Raised m \<Rightarrow>
                                   \<lparr>r_status = ''failed'', r_result = result t,
                                    r_error = Some m\<rparr>)) \<and>
                   ((\<forall>x. \<exists>m. fst (action t x) = Raised m) \<longrightarrow>
                      (\<exists>x m. fst (action t x) = Raised m \<and>
                         map_of rep n =
                           Some \<lparr>r_status = ''failed'', r_result = result t, r_error = Some m\<rparr>)))))"
    (is "?A \<and> ?B \<and> ?C \<and> ?D \<and> ?E")
proof -
  let ?i = "AtLoopHead (init_state (tasks w) c wn)"
  let ?sf = "snd (run_loop (init_state (tasks w) c wn))"
  let ?res = "fst (execute_workflow eng wn c)"
  let ?eng = "fst (snd (execute_workflow eng wn c))"
  let ?log = "snd (snd (execute_workflow eng wn c))"
  let ?rep = "collect_results (st_tasks ?sf)"
  have inv: "run_inv (tasks w) ?sf" by (rule run_inv_final)
  have res: "?res = fst (run_loop (init_state (tasks w) c wn))"
    by (rule execute_registered(1)[OF reg])
  have eng: "workflows ?eng wn = Some (w\<lparr>tasks := st_tasks ?sf\<rparr>)"
    by (rule execute_registered(2)[OF reg])
  have log: "set (st_log ?sf) \<subseteq> set ?log"
    unfolding execute_registered(3)[OF reg] by simp
  have started: "LogExecutingTask n \<in> set (st_log ?sf)"
    if "LogExecutingTask n \<in> set ?log" for n
    using that unfolding execute_registered(3)[OF reg] by (auto split: sum.splits)
  have rep: "rep = ?rep" if "?res = Inr rep" for rep
    using that run_loop_returned(1) res by simp
  have rem: "set rem = set (map fst (tasks w)) - executed_tasks ?sf"
    if "?res = Inl (CannotExecute rem)" for rem
  proof -
    from that res have "rem = remaining ?sf"
      by (cases "init_state (tasks w) c wn" rule: run_loop_final) simp_all
    then show ?thesis using run_inv_remaining[OF inv] by simp
  qed

  have A: "(\<exists>t0. map_of (tasks w) n = Some t0 \<and> t = t0\<lparr>status := RUNNING\<rparr>) \<and>
              (\<forall>t' ns' s'.
                  rtranclp step ?i (AtCall n t' ns' s') \<longrightarrow>
                  AtCall n t' ns' s' = AtCall n t ns s) \<and>
              step (AtCall n t ns s) (AtScan ns (finish_task n t s)) \<and>
              map_of (st_tasks (finish_task n t s)) n =
                Some (t\<lparr>status := FAILED, error := Some m\<rparr>) \<and>
              n \<in> executed_tasks (finish_task n t s) \<and>
              progress_made (finish_task n t s) \<and>
              st_log (finish_task n t s) = st_log s @ [LogTaskFailed n m] \<and>
              LogTaskFailed n m \<in> set ?log \<and>
              (\<exists>w'. workflows ?eng wn = Some w' \<and>
                    map_of (tasks w') n = Some (t\<lparr>status := FAILED, error := Some m\<rparr>)) \<and>
              (\<forall>rep. ?res = Inr rep \<longrightarrow>
                    map_of rep n =
                      Some \<lparr>r_status = ''failed'', r_result = result t, r_error = Some m\<rparr>) \<and>
              (\<forall>rem. ?res = Inl (CannotExecute rem) \<longrightarrow> n \<notin> set rem)"
    if reach: "rtranclp step ?i (AtCall n t ns s)"
      and raised: "fst (action t (st_ctx s)) = Raised m" for n t ns s m
  proof -
    note r = raised_at_call[OF reach raised]
    have a1: "\<exists>t0. map_of (tasks w) n = Some t0 \<and> t = t0\<lparr>status := RUNNING\<rparr>" by (rule r(1))
    have a2: "\<forall>t' ns' s'. rtranclp step ?i (AtCall n t' ns' s') \<longrightarrow>
                  AtCall n t' ns' s' = AtCall n t ns s"
      using call_unique[OF reach] by blast
    have a3: "step (AtCall n t ns s) (AtScan ns (finish_task n t s))" by (rule end_task)
    have a8: "LogTaskFailed n m \<in> set ?log" using r(8) log by blast
    have a9: "\<exists>w'. workflows ?eng wn = Some w' \<and>
                    map_of (tasks w') n = Some (t\<lparr>status := FAILED, error := Some m\<rparr>)"
      using eng r(6) by simp
    have a10: "\<forall>rep. ?res = Inr rep \<longrightarrow>
                    map_of rep n =
                      Some \<lparr>r_status = ''failed'', r_result = result t, r_error = Some m\<rparr>"
    proof (intro allI impI)
      fix rep assume "?res = Inr rep"
      then have "rep = ?rep" by (rule rep)
      then show "map_of rep n =
                      Some \<lparr>r_status = ''failed'', r_result = result t, r_error = Some m\<rparr>"
        using r(6) by (simp add: collect_results_lookup)
    qed
    have a11: "\<forall>rem. ?res = Inl (CannotExecute rem) \<longrightarrow> n \<notin> set rem"
      using rem r(7) by blast
    show ?thesis by (intro conjI a1 a2 a3 r(2) r(3) r(4) r(5) a8 a9 a10 a11)
  qed

  have B: "\<exists>sf. rtranclp step ?i (AtExit ?res sf) \<and>
                workflows ?eng wn = Some (w\<lparr>tasks := st_tasks sf\<rparr>)"
    using steps_run_loop[of "init_state (tasks w) c wn"] eng unfolding res by blast

  have C: "\<exists>t0 ns s. map_of (tasks w) n = Some t0 \<and>
                  rtranclp step ?i (AtCall n (t0\<lparr>status := RUNNING\<rparr>) ns s)"
    if "LogExecutingTask n \<in> set ?log" for n
    using started[OF that] by (rule started_call_point)

  have D: "(\<exists>w' t. workflows ?eng wn = Some w' \<and>
                     map_of (tasks w') n = Some t \<and> status t = FAILED \<and> error t = Some m) \<and>
            (\<forall>rep. ?res = Inr rep \<longrightarrow>
                     (\<exists>e. map_of rep n = Some e \<and> r_status e = ''failed'' \<and> r_error e = Some m))"
    if lg: "LogTaskFailed n m \<in> set ?log" for n m
  proof (rule conjI)
    from execute_log_failed[OF reg lg] inv
    obtain t where t: "map_of (st_tasks ?sf) n = Some t" "status t = FAILED" "error t = Some m"
      unfolding run_inv_def by blast
    then show "\<exists>w' t. workflows ?eng wn = Some w' \<and>
                     map_of (tasks w') n = Some t \<and> status t = FAILED \<and> error t = Some m"
      by (simp add: eng)
    show "\<forall>rep. ?res = Inr rep \<longrightarrow>
                     (\<exists>e. map_of rep n = Some e \<and> r_status e = ''failed'' \<and> r_error e = Some m)"
    proof (intro allI impI)
      fix rep assume "?res = Inr rep"
      then have "rep = ?rep" by (rule rep)
      with t show "\<exists>e. map_of rep n = Some e \<and> r_status e = ''failed'' \<and> r_error e = Some m"
        by (simp add: collect_results_lookup)
    qed
  qed

  have E: "\<exists>rep. ?res = Inr rep \<and>
               (\<forall>(n, t)\<in>set (tasks w).
                   LogExecutingTask n \<in> set ?log \<and>
                   (\<exists>ns s.
                       rtranclp step ?i (AtCall n (t\<lparr>status := RUNNING\<rparr>) ns s) \<and>
                       map_of rep n =
                         Some (case fst (action t (st_ctx s)) of
                                 Returned v \<Rightarrow>
                                   \<lparr>r_status = ''completed'', r_result = v, r_error = error t\<rparr>
                               | Raised m \<Rightarrow>
                                   \<lparr>r_status = ''failed'', r_result = result t,
                                    r_error = Some m\<rparr>)) \<and>
                   ((\<forall>x. \<exists>m. fst (action t x) = Raised m) \<longrightarrow>
                      (\<exists>x m. fst (action t x) = Raised m \<and>
                         map_of rep n =
                           Some \<lparr>r_status = ''failed'', r_result = result t, r_error = Some m\<rparr>)))"
    if keys: "distinct (map fst (tasks w))" and fresh: "all_pending (tasks w)"
      and defd: "deps_defined (tasks w)" and acyc: "acyclic (set (dep_edges (tasks w)))"
  proof -
    have ret: "?res = Inr ?rep"
      using fresh_acyclic_returns(1)[OF keys fresh defd acyc] res by simp
    have ex: "executed_tasks ?sf = set (map fst (tasks w))"
      by (rule fresh_acyclic_returns(2)[OF keys fresh defd acyc])
    have each: "LogExecutingTask n \<in> set ?log \<and>
                   (\<exists>ns s.
                       rtranclp step ?i (AtCall n (t\<lparr>status := RUNNING\<rparr>) ns s) \<and>
                       map_of ?rep n =
                         Some (case fst (action t (st_ctx s)) of
                                 Returned v \<Rightarrow>
                                   \<lparr>r_status = ''completed'', r_result = v, r_error = error t\<rparr>
                               | Raised m \<Rightarrow>
                                   \<lparr>r_status = ''failed'', r_result = result t,
                                    r_error = Some m\<rparr>)) \<and>
                   ((\<forall>x. \<exists>m. fst (action t x) = Raised m) \<longrightarrow>
                      (\<exists>x m. fst (action t x) = Raised m \<and>
                         map_of ?rep n =
                           Some \<lparr>r_status = ''failed'', r_result = result t, r_error = Some m\<rparr>))"
      if nt: "(n, t) \<in> set (tasks w)" for n t
    proof (intro conjI)
      from nt have n: "n \<in> executed_tasks ?sf" unfolding ex by force
      then show st: "LogExecutingTask n \<in> set ?log"
        by (simp add: execute_log_started[OF reg])
      from keys nt have look: "map_of (tasks w) n = Some t" by simp
      from C[OF st] look obtain ns s where
        call: "rtranclp step ?i (AtCall n (t\<lparr>status := RUNNING\<rparr>) ns s)" by auto
      from outcome_at_call[OF call]
      have "map_of ?rep n =
              Some (case fst (action t (st_ctx s)) of
                      Returned v \<Rightarrow>
                        \<lparr>r_status = ''completed'', r_result = v, r_error = error t\<rparr>
                    | Raised m \<Rightarrow>
                        \<lparr>r_status = ''failed'', r_result = result t, r_error = Some m\<rparr>)"
        by (simp add: collect_results_lookup split: outcome.split)
      with call show "\<exists>ns s.
                       rtranclp step ?i (AtCall n (t\<lparr>status := RUNNING\<rparr>) ns s) \<and>
                       map_of ?rep n =
                         Some (case fst (action t (st_ctx s)) of
                                 Returned v \<Rightarrow>
                                   \<lparr>r_status = ''completed'', r_result = v, r_error = error t\<rparr>
                               | Raised m \<Rightarrow>
                                   \<lparr>r_status = ''failed'', r_result = result t,
                                    r_error = Some m\<rparr>)"
        by blast
      from inv n look obtain u where u: "map_of (st_tasks ?sf) n = Some u" "ran_as t u"
        unfolding run_inv_def by fastforce
      show "(\<forall>x. \<exists>m. fst (action t x) = Raised m) \<longrightarrow>
                      (\<exists>x m. fst (action t x) = Raised m \<and>
                         map_of ?rep n =
                           Some \<lparr>r_status = ''failed'', r_result = result t, r_error = Some m\<rparr>)"
      proof
        assume always: "\<forall>x. \<exists>m. fst (action t x) = Raised m"
        from u(2) always obtain x m where xm: "fst (action t x) = Raised m"
            "u = t\<lparr>status := FAILED, error := Some m\<rparr>"
          unfolding ran_as_def by (metis outcome.distinct(1))
        with u(1) show "\<exists>x m. fst (action t x) = Raised m \<and>
                         map_of ?rep n =
                           Some \<lparr>r_status = ''failed'', r_result = result t, r_error = Some m\<rparr>"
          by (auto simp: collect_results_lookup)
      qed
    qed
    show ?thesis using ret each by (intro exI[of _ ?rep]) auto
  qed
  have a: ?A by (intro allI impI, elim conjE, rule A)
  have c: ?C by (intro allI impI, rule C)
  have d: ?D by (intro allI impI, rule D)
  have e: ?E by (intro impI, elim conjE, rule E)
  show ?thesis by (intro conjI a B c d e)
qed

theorem action_failure_recorded_witness:
  "workflows (register_workflow new_engine stock_wf) ''stock'' = Some stock_wf
   \<and> distinct (map fst (tasks stock_wf))
   \<and> all_pending (tasks stock_wf)
   \<and> deps_defined (tasks stock_wf)
   \<and> acyclic (set (dep_edges (tasks stock_wf)))
   \<and> rtranclp step (AtLoopHead (init_state (tasks stock_wf) None ''stock''))
       (AtCall ''charge'' (stock_charge\<lparr>status := RUNNING\<rparr>) [''notify''] stock_at_charge)
   \<and> st_ctx stock_at_charge = [(''in_stock'', PyBool False)]
   \<and> fst (action (stock_charge\<lparr>status := RUNNING\<rparr>) (st_ctx stock_at_charge)) = Raised ''out of stock''
   \<and> fst (action stock_charge []) = Returned (PyStr ''paid'')
   \<and> map_of (st_tasks (finish_task ''charge'' (stock_charge\<lparr>status := RUNNING\<rparr>) stock_at_charge))
         ''charge'' = Some (stock_charge\<lparr>status := FAILED, error := Some ''out of stock''\<rparr>)
   \<and> LogTaskFailed ''charge'' ''out of stock''
       \<in> set (snd (snd (execute_workflow (register_workflow new_engine stock_wf) ''stock'' None)))
   \<and> (\<exists>w'. workflows (fst (snd (execute_workflow (register_workflow new_engine stock_wf)
                  ''stock'' None))) ''stock'' = Some w' \<and>
            map_of (tasks w') ''charge'' =
              Some (stock_charge\<lparr>status := FAILED, error := Some ''out of stock''\<rparr>))
   \<and> (\<exists>rep. fst (execute_workflow (register_workflow new_engine stock_wf) ''stock'' None) = Inr rep \<and>
             map_of rep ''charge'' =
               Some \<lparr>r_status = ''failed'', r_result = PyNone, r_error = Some ''out of stock''\<rparr>)
   \<and> fst (execute_workflow (register_workflow new_engine stock_wf) ''stock'' None) =
       Inr [(''reserve'', \<lparr>r_status = ''completed'', r_result = PyBool False, r_error = None\<rparr>),
            (''charge'',
             \<lparr>r_status = ''failed'', r_result = PyNone, r_error = Some ''out of stock''\<rparr>),
            (''notify'', \<lparr>r_status = ''completed'', r_result = PyStr ''sent'', r_error = None\<rparr>)]
   \<and> (\<exists>t0 ns s. map_of (tasks stock_wf) ''notify'' = Some t0 \<and>
          rtranclp step (AtLoopHead (init_state (tasks stock_wf) None ''stock''))
            (AtCall ''notify'' (t0\<lparr>status := RUNNING\<rparr>) ns s))"
proof -
  let ?E = "register_workflow new_engine stock_wf"
  let ?s0 = "init_state (tasks stock_wf) None ''stock''"
  let ?s1 = "?s0\<lparr>progress_made := False\<rparr>"
  let ?sr = "begin_task ''reserve'' stock_reserve ?s1"
  let ?sr' = "finish_task ''reserve'' (stock_reserve\<lparr>status := RUNNING\<rparr>) ?sr"
  let ?t = "stock_charge\<lparr>status := RUNNING\<rparr>"
  let ?k = "AtCall ''charge'' ?t [''notify''] stock_at_charge"
  have h1: "workflows ?E ''stock'' = Some stock_wf"
    by (simp add: register_workflow_def new_engine_def stock_wf_def add_task_def new_workflow_def)
  have h2: "distinct (map fst (tasks stock_wf))" by (simp add: stock_wf_tasks)
  have h3: "all_pending (tasks stock_wf)"
    by (simp add: stock_wf_tasks all_pending_def stock_reserve_def stock_charge_def
        stock_notify_def new_task_def)
  have h4: "deps_defined (tasks stock_wf)"
    by (simp add: stock_wf_tasks deps_defined_def stock_reserve_def stock_charge_def
        stock_notify_def new_task_def)
  have h5: "acyclic (set (dep_edges (tasks stock_wf)))"
    by (rule acyclic_by_rank[where f = "\<lambda>n. if n = ''reserve'' then 0 else if n = ''charge'' then 1 else 2"])
       (simp add: stock_wf_tasks dep_edges_def stock_reserve_def stock_charge_def
          stock_notify_def new_task_def)
  have a: "step (AtLoopHead ?s0) (AtScan [''reserve'', ''charge'', ''notify''] ?s1)"
    using enter_scan[of ?s0] by (simp add: init_state_def stock_wf_tasks)
  have b: "step (AtScan [''reserve'', ''charge'', ''notify''] ?s1)
             (AtCall ''reserve'' (stock_reserve\<lparr>status := RUNNING\<rparr>) [''charge'', ''notify''] ?sr)"
    by (rule start_task)
       (simp_all add: init_state_def stock_wf_tasks stock_reserve_def new_task_def terminal_def
          deps_met_def)
  have c: "step (AtCall ''reserve'' (stock_reserve\<lparr>status := RUNNING\<rparr>) [''charge'', ''notify''] ?sr)
             (AtScan [''charge'', ''notify''] ?sr')"
    by (rule end_task)
  have d: "step (AtScan [''charge'', ''notify''] ?sr') ?k"
    unfolding stock_at_charge_def
    by (rule start_task)
       (simp_all add: init_state_def stock_wf_tasks stock_reserve_def stock_charge_def
          stock_notify_def new_task_def terminal_def deps_met_def begin_task_def finish_task_def
          set_task_def)
  have h6: "rtranclp step (AtLoopHead ?s0) ?k"
    using a b c d by (meson rtranclp.rtrancl_into_rtrancl rtranclp.rtrancl_refl)
  have ctx: "st_ctx stock_at_charge = [(''in_stock'', PyBool False)]"
    by (simp add: stock_at_charge_def init_state_def stock_reserve_def new_task_def
        begin_task_def finish_task_def set_task_def)
  have h7: "fst (action ?t (st_ctx stock_at_charge)) = Raised ''out of stock''"
    unfolding ctx by (simp add: stock_charge_def new_task_def)
  have other: "fst (action stock_charge []) = Returned (PyStr ''paid'')"
    by (simp add: stock_charge_def new_task_def)
  have run: "fst (execute_workflow ?E ''stock'' None) =
       Inr [(''reserve'', \<lparr>r_status = ''completed'', r_result = PyBool False, r_error = None\<rparr>),
            (''charge'',
             \<lparr>r_status = ''failed'', r_result = PyNone, r_error = Some ''out of stock''\<rparr>),
            (''notify'', \<lparr>r_status = ''completed'', r_result = PyStr ''sent'', r_error = None\<rparr>)]"
    by (simp add: exec_defs stock_wf_def run_loop.simps)
  note inst = action_failure_recorded[OF h1, of None, THEN conjunct1, rule_format,
      OF conjI[OF h6 h7]]
  from inst have r1: "map_of (st_tasks (finish_task ''charge'' ?t stock_at_charge)) ''charge'' =
      Some (stock_charge\<lparr>status := FAILED, error := Some ''out of stock''\<rparr>)"
    by simp
  from inst have r2: "LogTaskFailed ''charge'' ''out of stock''
       \<in> set (snd (snd (execute_workflow ?E ''stock'' None)))"
    by simp
  from inst have r3: "\<exists>w'. workflows (fst (snd (execute_workflow ?E ''stock'' None))) ''stock'' = Some w' \<and>
            map_of (tasks w') ''charge'' =
              Some (stock_charge\<lparr>status := FAILED, error := Some ''out of stock''\<rparr>)"
    by simp
  from inst have "\<forall>rep. fst (execute_workflow ?E ''stock'' None) = Inr rep \<longrightarrow>
        map_of rep ''charge'' =
          Some \<lparr>r_status = ''failed'', r_result = result ?t, r_error = Some ''out of stock''\<rparr>"
    by blast
  with run have r4: "\<exists>rep. fst (execute_workflow ?E ''stock'' None) = Inr rep \<and>
             map_of rep ''charge'' =
               Some \<lparr>r_status = ''failed'', r_result = PyNone, r_error = Some ''out of stock''\<rparr>"
    by (simp add: stock_charge_def new_task_def)
  have lg: "LogExecutingTask ''notify'' \<in> set (snd (snd (execute_workflow ?E ''stock'' None)))"
    by (simp add: exec_defs stock_wf_def run_loop.simps)
  note started = action_failure_recorded[OF h1, of None, THEN conjunct2, THEN conjunct2,
      THEN conjunct1, rule_format, OF lg]
  show ?thesis by (intro conjI h1 h2 h3 h4 h5 h6 ctx h7 other r1 r2 r3 r4 run started)
qed

end
